theory Spec2Isabelle
  imports Main
begin

section \<open>JavaScript strings\<close>

text \<open>
  A JavaScript string is a sequence of UTF-16 code units. The regular expression of
  \<open>extractUrlsFromConfig\<close> has no \<open>u\<close> flag and \<open>String.prototype.trim\<close> works on code
  units, so a string is modelled as the list of its code units (natural numbers);
  \<open>js\<close> writes an ASCII literal.
\<close>

type_synonym jsstring = "nat list"

definition js :: "string \<Rightarrow> jsstring" where
  "js s = map of_char s"

definition slash :: nat where
  "slash = 47"

text \<open>\<open>s.split(sep)\<close> for a separator of one code unit: never the empty list.\<close>

fun split_on :: "nat \<Rightarrow> jsstring \<Rightarrow> jsstring list" where
  "split_on sep [] = [[]]"
| "split_on sep (c # cs) =
     (if c = sep then [] # split_on sep cs
      else (case split_on sep cs of
              [] \<Rightarrow> [[c]]
            | s # ss \<Rightarrow> (c # s) # ss))"

text \<open>\<open>parts.join(sep)\<close> for a separator of one code unit.\<close>

fun intercalate :: "nat \<Rightarrow> jsstring list \<Rightarrow> jsstring" where
  "intercalate sep [] = []"
| "intercalate sep [s] = s"
| "intercalate sep (s # t # ss) = s @ sep # intercalate sep (t # ss)"

section \<open>Node's \<open>path\<close> module (POSIX)\<close>

text \<open>
  \<open>normalizeString\<close> walks the segments between separators and keeps a stack of the
  segments of the result: an empty segment and \<open>.\<close> are dropped, \<open>..\<close> removes the last
  segment unless there is none or it is \<open>..\<close> itself, in which case \<open>..\<close> is kept when
  the path may rise above its start (\<open>allowAboveRoot\<close>).
\<close>

definition segment_step :: "bool \<Rightarrow> jsstring list \<Rightarrow> jsstring \<Rightarrow> jsstring list" where
  "segment_step allowAboveRoot res seg =
     (if seg = [] \<or> seg = js ''.'' then res
      else if seg = js ''..'' then
        (if res \<noteq> [] \<and> last res \<noteq> js ''..'' then butlast res
         else if allowAboveRoot then res @ [js ''..''] else res)
      else res @ [seg])"

definition normalizeString :: "jsstring \<Rightarrow> bool \<Rightarrow> jsstring" where
  "normalizeString p allowAboveRoot =
     intercalate slash (foldl (segment_step allowAboveRoot) [] (split_on slash p))"

definition isAbsolute :: "jsstring \<Rightarrow> bool" where
  "isAbsolute p = (case p of [] \<Rightarrow> False | c # _ \<Rightarrow> c = slash)"

definition normalize_path :: "jsstring \<Rightarrow> jsstring" where
  "normalize_path p =
     (if p = [] then js ''.''
      else
        let trailingSeparator = (last p = slash);
            q = normalizeString p (\<not> isAbsolute p)
        in if q = [] then
             (if isAbsolute p then [slash]
              else if trailingSeparator then js ''./'' else js ''.'')
           else
             (let q' = (if trailingSeparator then q @ [slash] else q)
              in if isAbsolute p then slash # q' else q'))"

text \<open>\<open>path.join(...args)\<close>: the non-empty arguments joined by \<open>/\<close>, normalised.\<close>

definition join :: "jsstring list \<Rightarrow> jsstring" where
  "join args =
     (let parts = filter (\<lambda>a. a \<noteq> []) args
      in if parts = [] then js ''.'' else normalize_path (intercalate slash parts))"

text \<open>
  \<open>path.resolve(...args)\<close>: the arguments are read from the right until one is
  absolute, the working directory \<open>cwd\<close> (\<open>process.cwd()\<close>) standing left of them all.
  \<open>resolve_args\<close> takes them in that order, rightmost first.
\<close>

fun resolve_args :: "jsstring list \<Rightarrow> jsstring \<Rightarrow> jsstring \<times> bool" where
  "resolve_args [] resolvedPath = (resolvedPath, False)"
| "resolve_args (p # ps) resolvedPath =
     (if p = [] then resolve_args ps resolvedPath
      else if isAbsolute p then (p @ slash # resolvedPath, True)
      else resolve_args ps (p @ slash # resolvedPath))"

definition resolve :: "jsstring \<Rightarrow> jsstring list \<Rightarrow> jsstring" where
  "resolve cwd args =
     (case resolve_args (rev (cwd # args)) [] of
        (resolvedPath, resolvedAbsolute) \<Rightarrow>
          let q = normalizeString resolvedPath (\<not> resolvedAbsolute)
          in if resolvedAbsolute then slash # q
             else if q \<noteq> [] then q else js ''.'')"

text \<open>
  \<open>path.relative(from, to)\<close>. Both paths are resolved; \<open>f\<close> and \<open>t\<close> are they without
  their first code unit, \<open>i\<close> is where the comparison loop stops and \<open>lastCommonSep\<close> the
  last separator it passed (\<open>-1\<close> when none).
\<close>

fun common_prefix_length :: "jsstring \<Rightarrow> jsstring \<Rightarrow> nat" where
  "common_prefix_length (a # as) (b # bs) =
     (if a = b then Suc (common_prefix_length as bs) else 0)"
| "common_prefix_length _ _ = 0"

definition last_separator :: "jsstring \<Rightarrow> int" where
  "last_separator s =
     (if slash \<in> set s
      then int (length s) - 1 - int (length (takeWhile (\<lambda>c. c \<noteq> slash) (rev s)))
      else -1)"

definition dotdots :: "jsstring \<Rightarrow> jsstring" where
  "dotdots s =
     intercalate slash (replicate (Suc (length (filter (\<lambda>c. c = slash) s))) (js ''..''))"

definition relative :: "jsstring \<Rightarrow> jsstring \<Rightarrow> jsstring \<Rightarrow> jsstring" where
  "relative cwd from to =
     (if from = to then []
      else
        let from' = resolve cwd [from]; to' = resolve cwd [to]
        in if from' = to' then []
           else
             let f = tl from'; t = tl to';
                 len = min (length f) (length t);
                 i = common_prefix_length f t;
                 sep = last_separator (take i f)
             in if i = len \<and> length t > len \<and> t ! i = slash then drop (i + 1) t
                else if i = len \<and> length t > len \<and> i = 0 then drop i t
                else
                  let lastCommonSep =
                        (if i = len \<and> \<not> length t > len \<and> length f > len \<and> f ! i = slash
                         then int i
                         else if i = len \<and> \<not> length t > len \<and> length f > len \<and> i = 0
                         then 0
                         else sep)
                  in dotdots (drop (nat (lastCommonSep + 1)) f)
                     @ drop (nat (1 + lastCommonSep)) to')"

section \<open>The file system\<close>

text \<open>
  What \<open>readdir(p, {withFileTypes: true})\<close> sees below a path: a directory with its
  entries in listing order (each a name and what it names), a directory that cannot be
  listed, or anything else (a regular file, a symbolic link, a socket, ...). An entry
  that is a symbolic link answers \<open>isDirectory()\<close> with false, so what the two recursive
  walks see is a finite tree. Reading \<open>join(p, name)\<close> for an entry \<open>name\<close> of the
  directory at \<open>p\<close> reads that entry.
\<close>

datatype fsnode =
    Other
  | Directory "(jsstring \<times> fsnode) list"
  | Unreadable

datatype fs_error = ENOTDIR | EACCES | ENOENT

fun isDirectory :: "fsnode \<Rightarrow> bool" where
  "isDirectory Other = False"
| "isDirectory (Directory _) = True"
| "isDirectory Unreadable = True"

section \<open>findGitRootInSubdirectories\<close>

text \<open>
  \<open>find_in_items\<close> is the \<open>for (const item of items)\<close> loop. \<open>if (gitRoot)\<close> is
  JavaScript truthiness: \<open>null\<close> and the empty string do not pass.
\<close>

fun findGitRootInSubdirectories :: "jsstring \<Rightarrow> fsnode \<Rightarrow> fs_error + jsstring option"
and find_in_items :: "jsstring \<Rightarrow> (jsstring \<times> fsnode) list \<Rightarrow> fs_error + jsstring option"
where
  "findGitRootInSubdirectories currentPath (Directory entries) =
     find_in_items currentPath entries"
| "findGitRootInSubdirectories currentPath Other = Inl ENOTDIR"
| "findGitRootInSubdirectories currentPath Unreadable = Inl EACCES"
| "find_in_items currentPath [] = Inr None"
| "find_in_items currentPath ((item_name, item) # rest) =
     (if isDirectory item then
        if item_name = js ''.git'' then Inr (Some currentPath)
        else
          (case findGitRootInSubdirectories (join [currentPath, item_name]) item of
             Inl e \<Rightarrow> Inl e
           | Inr None \<Rightarrow> find_in_items currentPath rest
           | Inr (Some gitRoot) \<Rightarrow>
               if gitRoot \<noteq> [] then Inr (Some gitRoot)
               else find_in_items currentPath rest)
      else find_in_items currentPath rest)"

section \<open>getDirectoryHierarchy\<close>

datatype DirectoryInfo =
  DirectoryInfo (name: jsstring) (path: jsstring) (subdirectories: "DirectoryInfo list")

text \<open>\<open>s || d\<close> on strings: the empty string is falsy.\<close>

definition or_else :: "jsstring \<Rightarrow> jsstring \<Rightarrow> jsstring" where
  "or_else s d = (if s \<noteq> [] then s else d)"

text \<open>
  \<open>hierarchy_items\<close> is the loop that pushes each subdirectory's node onto
  \<open>dirInfo.subdirectories\<close>, here the accumulator \<open>subs\<close>. \<open>cwd\<close> is the working
  directory that \<open>relative\<close> resolves against.
\<close>

fun getDirectoryHierarchy ::
  "jsstring \<Rightarrow> jsstring \<Rightarrow> jsstring \<Rightarrow> fsnode \<Rightarrow> fs_error + DirectoryInfo"
and hierarchy_items ::
  "jsstring \<Rightarrow> jsstring \<Rightarrow> jsstring \<Rightarrow> (jsstring \<times> fsnode) list \<Rightarrow> DirectoryInfo list
     \<Rightarrow> fs_error + DirectoryInfo list"
where
  "getDirectoryHierarchy cwd dirPath basePath (Directory entries) =
     (case hierarchy_items cwd dirPath basePath entries [] of
        Inl e \<Rightarrow> Inl e
      | Inr subs \<Rightarrow>
          Inr (DirectoryInfo (or_else (relative cwd basePath dirPath) (js ''.'')) dirPath subs))"
| "getDirectoryHierarchy cwd dirPath basePath Other = Inl ENOTDIR"
| "getDirectoryHierarchy cwd dirPath basePath Unreadable = Inl EACCES"
| "hierarchy_items cwd dirPath basePath [] subs = Inr subs"
| "hierarchy_items cwd dirPath basePath ((item_name, item) # rest) subs =
     (if isDirectory item then
        (case getDirectoryHierarchy cwd (join [dirPath, item_name]) basePath item of
           Inl e \<Rightarrow> Inl e
         | Inr subDirInfo \<Rightarrow> hierarchy_items cwd dirPath basePath rest (subs @ [subDirInfo]))
      else hierarchy_items cwd dirPath basePath rest subs)"

section \<open>extractUrlsFromConfig\<close>

text \<open>
  \<open>\s\<close> and \<open>trim\<close> take the same code units for white space: the WhiteSpace and
  LineTerminator productions of ECMAScript. The dot of a pattern without the \<open>s\<close> flag
  matches every code unit but the four line terminators.
\<close>

definition is_line_terminator :: "nat \<Rightarrow> bool" where
  "is_line_terminator c = (c = 0x0A \<or> c = 0x0D \<or> c = 0x2028 \<or> c = 0x2029)"

definition is_space :: "nat \<Rightarrow> bool" where
  "is_space c =
     (c = 0x09 \<or> c = 0x0A \<or> c = 0x0B \<or> c = 0x0C \<or> c = 0x0D \<or> c = 0x20 \<or> c = 0xA0
      \<or> c = 0x1680 \<or> (0x2000 \<le> c \<and> c \<le> 0x200A) \<or> c = 0x2028 \<or> c = 0x2029
      \<or> c = 0x202F \<or> c = 0x205F \<or> c = 0x3000 \<or> c = 0xFEFF)"

definition trim :: "jsstring \<Rightarrow> jsstring" where
  "trim s = rev (dropWhile is_space (rev (dropWhile is_space s)))"

text \<open>
  The pattern \<open>/url\s*=\s*(.+)/g\<close>, matched as a backtracking matcher does it. Each
  function matches the rest of the pattern at the head of its input and returns the
  text of group 1 with the input left after the match.

  \<open>match_group\<close> is \<open>(.+)\<close>: greedy, every code unit up to the next line terminator,
  and at least one.
\<close>

definition match_group :: "jsstring \<Rightarrow> (jsstring \<times> jsstring) option" where
  "match_group s =
     (let g = takeWhile (\<lambda>c. \<not> is_line_terminator c) s
      in if g = [] then None else Some (g, drop (length g) s))"

text \<open>
  \<open>match_space_group\<close> is \<open>\s*(.+)\<close>: the star first takes one more white-space code
  unit; where the rest then fails it gives that code unit back and the group starts
  there.
\<close>

fun match_space_group :: "jsstring \<Rightarrow> (jsstring \<times> jsstring) option" where
  "match_space_group [] = match_group []"
| "match_space_group (c # cs) =
     (if is_space c then
        (case match_space_group cs of
           Some r \<Rightarrow> Some r
         | None \<Rightarrow> match_group (c # cs))
      else match_group (c # cs))"

text \<open>\<open>match_equals\<close> is \<open>=\s*(.+)\<close>.\<close>

definition match_equals :: "jsstring \<Rightarrow> (jsstring \<times> jsstring) option" where
  "match_equals s =
     (case s of
        [] \<Rightarrow> None
      | c # cs \<Rightarrow> if c = 61 then match_space_group cs else None)"

text \<open>\<open>match_space_equals\<close> is \<open>\s*=\s*(.+)\<close>.\<close>

fun match_space_equals :: "jsstring \<Rightarrow> (jsstring \<times> jsstring) option" where
  "match_space_equals [] = match_equals []"
| "match_space_equals (c # cs) =
     (if is_space c then
        (case match_space_equals cs of
           Some r \<Rightarrow> Some r
         | None \<Rightarrow> match_equals (c # cs))
      else match_equals (c # cs))"

text \<open>\<open>match_here\<close> is the whole pattern at the head of the input.\<close>

definition match_here :: "jsstring \<Rightarrow> (jsstring \<times> jsstring) option" where
  "match_here s =
     (if take 3 s = js ''url'' then match_space_equals (drop 3 s) else None)"

text \<open>
  \<open>urlPattern.exec\<close> from \<open>lastIndex\<close> on: the input is what stands from \<open>lastIndex\<close>,
  the match is tried at each position from the left, and the input left after the
  match is where the next \<open>lastIndex\<close> points.
\<close>

fun exec :: "jsstring \<Rightarrow> (jsstring \<times> jsstring) option" where
  "exec [] = match_here []"
| "exec (c # cs) =
     (case match_here (c # cs) of
        Some r \<Rightarrow> Some r
      | None \<Rightarrow> exec cs)"

lemma match_group_shorter:
  "match_group s = Some (g, r) \<Longrightarrow> length r < length s"
  by (cases s) (auto simp: match_group_def Let_def split: if_splits)

lemma match_space_group_shorter:
  "match_space_group s = Some (g, r) \<Longrightarrow> length r < length s"
proof (induction s)
  case Nil
  then show ?case by (simp add: match_group_def)
next
  case (Cons c cs)
  show ?case
  proof (cases "is_space c \<and> match_space_group cs \<noteq> None")
    case True
    with Cons.prems have "match_space_group cs = Some (g, r)" by auto
    with Cons.IH show ?thesis by simp
  next
    case False
    with Cons.prems have "match_group (c # cs) = Some (g, r)"
      by (auto split: if_splits option.splits)
    then show ?thesis by (rule match_group_shorter)
  qed
qed

lemma match_equals_shorter:
  "match_equals s = Some (g, r) \<Longrightarrow> length r < length s"
  by (cases s) (auto simp: match_equals_def split: if_splits dest: match_space_group_shorter)

lemma match_space_equals_shorter:
  "match_space_equals s = Some (g, r) \<Longrightarrow> length r < length s"
proof (induction s)
  case Nil
  then show ?case by (simp add: match_equals_def)
next
  case (Cons c cs)
  show ?case
  proof (cases "is_space c \<and> match_space_equals cs \<noteq> None")
    case True
    with Cons.prems have "match_space_equals cs = Some (g, r)" by auto
    with Cons.IH show ?thesis by simp
  next
    case False
    with Cons.prems have "match_equals (c # cs) = Some (g, r)"
      by (auto split: if_splits option.splits)
    then show ?thesis by (rule match_equals_shorter)
  qed
qed

lemma match_here_shorter:
  "match_here s = Some (g, r) \<Longrightarrow> length r < length s"
  by (auto simp: match_here_def split: if_splits dest!: match_space_equals_shorter)

lemma exec_shorter:
  "exec s = Some (g, r) \<Longrightarrow> length r < length s"
proof (induction s)
  case Nil
  then show ?case by (simp add: match_here_def js_def)
next
  case (Cons c cs)
  show ?case
  proof (cases "match_here (c # cs)")
    case None
    with Cons.prems have "exec cs = Some (g, r)" by simp
    with Cons.IH show ?thesis by simp
  next
    case (Some a)
    with Cons.prems have "match_here (c # cs) = Some (g, r)" by simp
    then show ?thesis by (rule match_here_shorter)
  qed
qed

text \<open>
  The \<open>while ((match = urlPattern.exec(configContent)) !== null)\<close> loop: \<open>rest\<close> is the
  content from \<open>lastIndex\<close> on, \<open>urls\<close> the array pushed to.
\<close>

function extract_loop :: "jsstring \<Rightarrow> jsstring list \<Rightarrow> jsstring list" where
  "extract_loop rest urls =
     (case exec rest of
        None \<Rightarrow> urls
      | Some (g, rest') \<Rightarrow> extract_loop rest' (urls @ [trim g]))"
  by pat_completeness auto
termination
  by (relation "measure (\<lambda>(rest, urls). length rest)") (auto dest: exec_shorter)

definition extractUrlsFromConfig :: "jsstring \<Rightarrow> jsstring list" where
  "extractUrlsFromConfig configContent = extract_loop configContent []"

section \<open>fetchRepositoryInfo\<close>

text \<open>The results of \<open>simple-git\<close>, as far as the function reads them.\<close>

record StatusResult =
  tracking :: "jsstring option"
  current :: "jsstring option"
  modified :: "jsstring list"

record LogResult =
  all :: "jsstring list"

record DiffResult =
  files :: "jsstring list"

datatype git_error = GitError jsstring

text \<open>
  The handle \<open>simpleGit(gitRoot)\<close> with the outcome of each call the function makes:
  \<open>git_listRemote\<close> is \<open>git.listRemote(["--get-url"])\<close>, \<open>git_revparse\<close> is
  \<open>git.revparse(["--abbrev-ref", "HEAD"])\<close>, \<open>git_log None\<close> is \<open>git.log()\<close> and
  \<open>git_log (Some ref)\<close> is \<open>git.log([ref])\<close>. A rejected promise is \<open>Inl\<close>.
\<close>

record SimpleGit =
  git_listRemote :: "git_error + jsstring"
  git_revparse :: "git_error + jsstring"
  git_status :: "git_error + StatusResult"
  git_log :: "jsstring option \<Rightarrow> git_error + LogResult"
  git_diffSummary :: "git_error + DiffResult"

record RepositoryInfo =
  url :: jsstring
  mainFolderName :: jsstring
  currentBranch :: jsstring
  status :: StatusResult
  commits :: "jsstring list"
  commitDiffs :: "jsstring list"
  branchDetails :: "LogResult list"
  directoryHierarchy :: DirectoryInfo
  configUrls :: "jsstring list"

text \<open>
  What the function rejects with: the \<open>Error\<close> it throws itself, or the rejection of a
  file-system or git call, passed on.
\<close>

datatype failure = Error jsstring | FsFailure fs_error | GitFailure git_error

text \<open>
  \<open>vscode.window.showErrorMessage(`Error reading config file: ${error}`)\<close>: the text
  before the interpolation and the error interpolated.
\<close>

datatype notification = ErrorMessage jsstring fs_error

text \<open>
  The world the function runs in: the working directory, the tree that stands at
  \<open>repoPath\<close>, the git handle for a directory and the outcome of \<open>readFile(p, "utf-8")\<close>.
\<close>

record world =
  process_cwd :: jsstring
  tree :: fsnode
  simpleGit :: "jsstring \<Rightarrow> SimpleGit"
  readFile :: "jsstring \<Rightarrow> fs_error + jsstring"

text \<open>
  The node that stands at path \<open>target\<close> in the tree at \<open>p\<close>, the paths below \<open>p\<close>
  formed as the walks form them.
\<close>

fun node_at :: "jsstring \<Rightarrow> fsnode \<Rightarrow> jsstring \<Rightarrow> fsnode option"
and node_in :: "jsstring \<Rightarrow> (jsstring \<times> fsnode) list \<Rightarrow> jsstring \<Rightarrow> fsnode option"
where
  "node_at p (Directory entries) target =
     (if p = target then Some (Directory entries) else node_in p entries target)"
| "node_at p Other target = (if p = target then Some Other else None)"
| "node_at p Unreadable target = (if p = target then Some Unreadable else None)"
| "node_in p [] target = None"
| "node_in p ((item_name, item) # rest) target =
     (case node_at (join [p, item_name]) item target of
        Some n \<Rightarrow> Some n
      | None \<Rightarrow> node_in p rest target)"

definition truthy :: "jsstring option \<Rightarrow> bool" where
  "truthy v = (case v of None \<Rightarrow> False | Some s \<Rightarrow> s \<noteq> [])"

definition no_repository :: failure where
  "no_repository = Error (js ''No Git repository found in the current project hierarchy.'')"

text \<open>
  \<open>await Promise.all(status.tracking ? [await git.log([status.tracking])] : [])\<close>:
  the log of the tracking branch, alone in an array, or the empty array.
\<close>

definition tracking_details :: "SimpleGit \<Rightarrow> StatusResult \<Rightarrow> git_error + LogResult list" where
  "tracking_details git st =
     (if truthy (tracking st)
      then (case git_log git (tracking st) of Inl e \<Rightarrow> Inl e | Inr l \<Rightarrow> Inr [l])
      else Inr [])"

text \<open>\<open>getDirectoryHierarchy(gitRoot, gitRoot)\<close>, reading what stands at \<open>gitRoot\<close>.\<close>

definition hierarchy_from :: "world \<Rightarrow> jsstring \<Rightarrow> jsstring \<Rightarrow> fs_error + DirectoryInfo" where
  "hierarchy_from w repoPath gitRoot =
     (case node_at repoPath (tree w) gitRoot of
        None \<Rightarrow> Inl ENOENT
      | Some node \<Rightarrow> getDirectoryHierarchy (process_cwd w) gitRoot gitRoot node)"

text \<open>
  The \<open>try\<close> block around \<open>readFile\<close> and \<open>extractUrlsFromConfig\<close> with its \<open>catch\<close>:
  what is shown to the user and the value of \<open>configUrls\<close> after it.
\<close>

definition read_config :: "world \<Rightarrow> jsstring \<Rightarrow> notification list \<times> jsstring list" where
  "read_config w gitRoot =
     (case readFile w (join [gitRoot, js ''.git'', js ''config'']) of
        Inl e \<Rightarrow> ([ErrorMessage (js ''Error reading config file: '') e], [])
      | Inr configFileContent \<Rightarrow> ([], extractUrlsFromConfig configFileContent))"

definition fetchRepositoryInfo ::
  "world \<Rightarrow> jsstring \<Rightarrow> notification list \<times> (failure + RepositoryInfo)" where
  "fetchRepositoryInfo w repoPath =
     (case findGitRootInSubdirectories repoPath (tree w) of
        Inl e \<Rightarrow> ([], Inl (FsFailure e))
      | Inr found \<Rightarrow>
     if \<not> truthy found then ([], Inl no_repository)
     else
       let gitRoot = the found;
           git = simpleGit w gitRoot;
           remoteUrl = (case git_listRemote git of Inl _ \<Rightarrow> None | Inr u \<Rightarrow> Some u);
           folder = last (split_on slash (resolve (process_cwd w) [gitRoot]))
       in
     (case git_revparse git of
        Inl e \<Rightarrow> ([], Inl (GitFailure e))
      | Inr branch \<Rightarrow>
     (case git_status git of
        Inl e \<Rightarrow> ([], Inl (GitFailure e))
      | Inr st \<Rightarrow>
     (case git_log git None of
        Inl e \<Rightarrow> ([], Inl (GitFailure e))
      | Inr lg \<Rightarrow>
     (case git_diffSummary git of
        Inl e \<Rightarrow> ([], Inl (GitFailure e))
      | Inr diffs \<Rightarrow>
     (case tracking_details git st of
        Inl e \<Rightarrow> ([], Inl (GitFailure e))
      | Inr details \<Rightarrow>
     (case hierarchy_from w repoPath gitRoot of
        Inl e \<Rightarrow> ([], Inl (FsFailure e))
      | Inr hierarchy \<Rightarrow>
     (case read_config w gitRoot of
        (shown, urls) \<Rightarrow>
          (shown,
           Inr \<lparr> url = (if truthy remoteUrl then trim (the remoteUrl) else []),
                 mainFolderName = folder,
                 currentBranch = trim branch,
                 status = st,
                 commits = all lg,
                 commitDiffs = files diffs,
                 branchDetails = details,
                 directoryHierarchy = hierarchy,
                 configUrls = urls \<rparr>)))))))))"

section \<open>Properties of the root search\<close>

text \<open>
  \<open>marker_roots p node\<close> lists, for the tree \<open>node\<close> standing at path \<open>p\<close>, the path of
  every directory that has a directory named \<open>.git\<close> among its entries, once for each
  such entry, in the order of the listings. \<open>listable\<close> holds of a tree in which every
  directory can be listed, \<open>marker_free\<close> of one with no directory named \<open>.git\<close> in it.
\<close>

fun marker_roots :: "jsstring \<Rightarrow> fsnode \<Rightarrow> jsstring list"
and marker_roots_in :: "jsstring \<Rightarrow> (jsstring \<times> fsnode) list \<Rightarrow> jsstring list" where
  "marker_roots p (Directory entries) = marker_roots_in p entries"
| "marker_roots p Other = []"
| "marker_roots p Unreadable = []"
| "marker_roots_in p [] = []"
| "marker_roots_in p ((item_name, item) # rest) =
     (if isDirectory item
      then (if item_name = js ''.git'' then [p] else [])
           @ marker_roots (join [p, item_name]) item
      else [])
     @ marker_roots_in p rest"

fun listable :: "fsnode \<Rightarrow> bool" where
  "listable (Directory entries) = list_all (\<lambda>e. listable (snd e)) entries"
| "listable Other = True"
| "listable Unreadable = False"

fun marker_free :: "fsnode \<Rightarrow> bool" where
  "marker_free (Directory entries) =
     list_all (\<lambda>e. isDirectory (snd e) \<longrightarrow> fst e \<noteq> js ''.git'' \<and> marker_free (snd e)) entries"
| "marker_free Other = True"
| "marker_free Unreadable = True"

text \<open>
  \<open>subdir_chain node names\<close>: \<open>names\<close> leads from the directory \<open>node\<close> down through
  subdirectories; \<open>path_below p names\<close> is the path the walk forms for where it leads.
\<close>

fun subdir_chain :: "fsnode \<Rightarrow> jsstring list \<Rightarrow> bool" where
  "subdir_chain node [] = isDirectory node"
| "subdir_chain (Directory entries) (n # ns) =
     list_ex (\<lambda>e. fst e = n \<and> isDirectory (snd e) \<and> subdir_chain (snd e) ns) entries"
| "subdir_chain Other (n # ns) = False"
| "subdir_chain Unreadable (n # ns) = False"

definition path_below :: "jsstring \<Rightarrow> jsstring list \<Rightarrow> jsstring" where
  "path_below p names = foldl (\<lambda>q n. join [q, n]) p names"

definition first_of :: "'a list \<Rightarrow> 'a option" where
  "first_of xs = (case xs of [] \<Rightarrow> None | x # _ \<Rightarrow> Some x)"

lemma normalize_path_nonempty: "normalize_path p \<noteq> []"
  by (auto simp: normalize_path_def Let_def js_def)

lemma join_nonempty: "join args \<noteq> []"
  by (auto simp: join_def Let_def js_def normalize_path_nonempty)

lemma marker_roots_nonempty:
  "p \<noteq> [] \<Longrightarrow> [] \<notin> set (marker_roots p node)"
  "p \<noteq> [] \<Longrightarrow> [] \<notin> set (marker_roots_in p items)"
  by (induction p node and p items rule: marker_roots_marker_roots_in.induct)
     (auto simp: join_nonempty)

lemma marker_free_roots:
  "marker_free node \<Longrightarrow> marker_roots p node = []"
  "list_all (\<lambda>e. isDirectory (snd e) \<longrightarrow> fst e \<noteq> js ''.git'' \<and> marker_free (snd e)) items
     \<Longrightarrow> marker_roots_in p items = []"
  by (induction p node and p items rule: marker_roots_marker_roots_in.induct) auto

text \<open>Where every directory can be listed, the search returns the first of the roots.\<close>

lemma search_finds_first:
  "isDirectory node \<Longrightarrow> listable node \<Longrightarrow>
     findGitRootInSubdirectories p node = Inr (first_of (marker_roots p node))"
  "list_all (\<lambda>e. listable (snd e)) items \<Longrightarrow>
     find_in_items p items = Inr (first_of (marker_roots_in p items))"
proof (induction p node and p items rule: findGitRootInSubdirectories_find_in_items.induct)
  case (5 currentPath item_name item rest)
  show ?case
  proof (cases "isDirectory item")
    case False
    with 5 show ?thesis by simp
  next
    case dir: True
    show ?thesis
    proof (cases "item_name = js ''.git''")
      case True
      with dir show ?thesis by (simp add: first_of_def)
    next
      case False
      let ?q = "join [currentPath, item_name]"
      from 5 dir False
      have sub: "findGitRootInSubdirectories ?q item = Inr (first_of (marker_roots ?q item))"
        by simp
      show ?thesis
      proof (cases "marker_roots ?q item")
        case Nil
        with 5 dir False sub show ?thesis by (simp add: first_of_def)
      next
        case (Cons r rs)
        moreover have "r \<noteq> []"
          using marker_roots_nonempty(1)[of ?q item] Cons by (auto simp: join_nonempty)
        ultimately show ?thesis using dir False sub by (simp add: first_of_def)
      qed
    qed
  qed
qed (simp_all add: first_of_def)

lemma find_in_items_append:
  "find_in_items p (xs @ ys) =
     (case find_in_items p xs of Inr None \<Rightarrow> find_in_items p ys | r \<Rightarrow> r)"
proof (induction xs)
  case Nil
  show ?case by simp
next
  case (Cons x xs)
  obtain item_name item where x: "x = (item_name, item)" by (cases x)
  show ?case using Cons
    by (simp add: x split: sum.splits option.splits)
qed

lemma subdir_chain_skip:
  "subdir_chain (Directory rest) names \<Longrightarrow> subdir_chain (Directory (x # rest)) names"
  by (cases names) auto

lemma found_is_below:
  "findGitRootInSubdirectories p node = Inr (Some r) \<Longrightarrow>
     \<exists>names. subdir_chain node names \<and> r = path_below p names"
  "find_in_items p items = Inr (Some r) \<Longrightarrow>
     \<exists>names. subdir_chain (Directory items) names \<and> r = path_below p names"
proof (induction p node and p items arbitrary: r and r
    rule: findGitRootInSubdirectories_find_in_items.induct)
  case (5 currentPath item_name item rest)
  let ?q = "join [currentPath, item_name]"
  let ?here = "Directory ((item_name, item) # rest)"
  show ?case
  proof (cases "isDirectory item")
    case False
    with "5.prems" have "find_in_items currentPath rest = Inr (Some r)" by simp
    from "5.IH"(4)[OF False this] show ?thesis by (blast intro: subdir_chain_skip)
  next
    case dir: True
    show ?thesis
    proof (cases "item_name = js ''.git''")
      case True
      with dir "5.prems" have "r = path_below currentPath []" by (simp add: path_below_def)
      moreover have "subdir_chain ?here []" by simp
      ultimately show ?thesis by blast
    next
      case nogit: False
      show ?thesis
      proof (cases "findGitRootInSubdirectories ?q item")
        case (Inl e)
        with dir nogit "5.prems" show ?thesis by simp
      next
        case (Inr found)
        show ?thesis
        proof (cases "found = None \<or> found = Some []")
          case True
          with dir nogit Inr "5.prems"
          have rest: "find_in_items currentPath rest = Inr (Some r)" by auto
          from True
          have "\<exists>names. subdir_chain (Directory rest) names \<and> r = path_below currentPath names"
          proof
            assume "found = None"
            from "5.IH"(2)[OF dir nogit Inr this rest] show ?thesis .
          next
            assume "found = Some []"
            from "5.IH"(3)[OF dir nogit Inr this _ rest] show ?thesis by simp
          qed
          then show ?thesis by (blast intro: subdir_chain_skip)
        next
          case False
          then obtain g where g: "found = Some g" "g \<noteq> []" by (cases found) auto
          with dir nogit Inr "5.prems" have "g = r" by simp
          with Inr g have "findGitRootInSubdirectories ?q item = Inr (Some r)" by simp
          from "5.IH"(1)[OF dir nogit this] obtain names where
            n: "subdir_chain item names" "r = path_below ?q names" by blast
          have "subdir_chain ?here (item_name # names)" using dir n(1) by simp
          moreover have "r = path_below currentPath (item_name # names)"
            using n(2) by (simp add: path_below_def)
          ultimately show ?thesis by blast
        qed
      qed
    qed
  qed
qed simp_all

text \<open>
  A root the search returns is a path at which \<open>node_at\<close> finds a node: the build of
  the hierarchy that follows has something to read.
\<close>

lemma found_root_has_node:
  "findGitRootInSubdirectories p node = Inr (Some r) \<Longrightarrow> node_at p node r \<noteq> None"
  "find_in_items p items = Inr (Some r) \<Longrightarrow> r = p \<or> node_in p items r \<noteq> None"
proof (induction p node and p items arbitrary: r and r
    rule: findGitRootInSubdirectories_find_in_items.induct)
  case (1 currentPath entries)
  then show ?case by auto
next
  case (5 currentPath item_name item rest)
  let ?q = "join [currentPath, item_name]"
  show ?case
  proof (cases "isDirectory item \<and> item_name \<noteq> js ''.git''")
    case False
    with "5.prems" "5.IH"(4) show ?thesis
      by (auto split: if_splits option.splits)
  next
    case True
    show ?thesis
    proof (cases "findGitRootInSubdirectories ?q item")
      case (Inl e)
      with True "5.prems" show ?thesis by simp
    next
      case (Inr found)
      show ?thesis
      proof (cases "found = None \<or> found = Some []")
        case skip: True
        with True Inr "5.prems" have rest: "find_in_items currentPath rest = Inr (Some r)"
          by auto
        from skip have "r = currentPath \<or> node_in currentPath rest r \<noteq> None"
        proof
          assume "found = None"
          from "5.IH"(2)[OF _ _ Inr this rest] True show ?thesis by simp
        next
          assume "found = Some []"
          from "5.IH"(3)[OF _ _ Inr this _ rest] True show ?thesis by simp
        qed
        then show ?thesis by (auto split: option.splits)
      next
        case False
        then obtain g where g: "found = Some g" "g \<noteq> []" by (cases found) auto
        with True Inr "5.prems" have "g = r" by simp
        with Inr g have "findGitRootInSubdirectories ?q item = Inr (Some r)" by simp
        from "5.IH"(1)[OF _ _ this] True have "node_at ?q item r \<noteq> None" by simp
        then show ?thesis by auto
      qed
    qed
  qed
qed simp_all

text \<open>Evaluation of the path functions and of the search on literals.\<close>

lemmas path_eval =
  js_def join_def normalize_path_def normalizeString_def segment_step_def isAbsolute_def
  slash_def

subsection \<open>Example trees\<close>

text \<open>
  A file system with one repository, \<open>/repo\<close>, whose sources are in \<open>/repo/src/app\<close>;
  \<open>repo_fs\<close> stands at \<open>/\<close> and \<open>app_dir\<close> is what stands at \<open>/repo/src/app\<close>.
\<close>

definition app_dir :: fsnode where
  "app_dir = Directory [(js ''main.ts'', Other), (js ''ui'', Directory [])]"

definition repo_fs :: fsnode where
  "repo_fs =
     Directory
       [(js ''repo'',
         Directory
           [(js ''.git'', Directory [(js ''config'', Other)]),
            (js ''README.md'', Other),
            (js ''src'', Directory [(js ''app'', app_dir)])])]"

text \<open>
  A workspace whose listing has the subdirectory \<open>.cache\<close>, which holds a clone, before
  its own \<open>.git\<close>.
\<close>

definition nested_ws :: fsnode where
  "nested_ws =
     Directory
       [(js ''.cache'', Directory [(js ''dep'', Directory [(js ''.git'', Directory [])])]),
        (js ''.git'', Directory []),
        (js ''src'', Unreadable)]"

subsection \<open>C1\<close>

text \<open>
  C1, as stated: where the ancestor chain of the starting directory holds the one
  marker directory and its own subtree none, the search returns the ancestor. It does
  not: the search only walks down. In \<open>repo_fs\<close> the only marker directory is
  \<open>/repo/.git\<close>, the starting directory \<open>/repo/src/app\<close> has none below it, and the
  search from there returns \<open>null\<close>, not \<open>/repo\<close>.
\<close>

theorem search_ignores_ancestors:
  "marker_roots (js ''/'') repo_fs = [js ''/repo'']
   \<and> node_at (js ''/'') repo_fs (js ''/repo/src/app'') = Some app_dir
   \<and> marker_roots (js ''/repo/src/app'') app_dir = []
   \<and> findGitRootInSubdirectories (js ''/repo/src/app'') app_dir = Inr None
   \<and> findGitRootInSubdirectories (js ''/repo/src/app'') app_dir \<noteq> Inr (Some (js ''/repo''))"
  by (simp add: repo_fs_def app_dir_def path_eval)

text \<open>
  C1, amended: for every starting directory whose own subtree can be listed throughout
  and holds exactly one marker directory, an entry of the directory at path \<open>R\<close> (the
  starting directory or one below it), the search returns \<open>R\<close>; where the subtree holds
  no marker directory it returns \<open>null\<close>, whatever the ancestors hold.
\<close>

theorem search_single_root:
  "isDirectory node \<Longrightarrow> listable node \<Longrightarrow>
     (marker_roots p node = [R] \<longrightarrow> findGitRootInSubdirectories p node = Inr (Some R))
     \<and> (marker_roots p node = [] \<longrightarrow> findGitRootInSubdirectories p node = Inr None)"
  by (simp add: search_finds_first(1) first_of_def)

theorem search_single_root_witness:
  "isDirectory repo_fs \<and> listable repo_fs
   \<and> marker_roots (js ''/'') repo_fs = [js ''/repo'']
   \<and> findGitRootInSubdirectories (js ''/'') repo_fs = Inr (Some (js ''/repo''))
   \<and> isDirectory app_dir \<and> listable app_dir
   \<and> marker_roots (js ''/repo/src/app'') app_dir = []
   \<and> findGitRootInSubdirectories (js ''/repo/src/app'') app_dir = Inr None"
proof -
  have d1: "isDirectory repo_fs" and l1: "listable repo_fs"
    by (simp_all add: repo_fs_def app_dir_def)
  have d2: "isDirectory app_dir" and l2: "listable app_dir"
    by (simp_all add: app_dir_def)
  have m1: "marker_roots (js ''/'') repo_fs = [js ''/repo'']"
    by (simp add: repo_fs_def app_dir_def path_eval)
  have m2: "marker_roots (js ''/repo/src/app'') app_dir = []"
    by (simp add: app_dir_def path_eval)
  show ?thesis
    using search_single_root[OF d1 l1, of "js ''/''" "js ''/repo''"]
      search_single_root[OF d2 l2, of "js ''/repo/src/app''" "js ''/repo''"]
      d1 l1 d2 l2 m1 m2
    by simp
qed

subsection \<open>C2\<close>

text \<open>
  C2, as stated: a starting directory with a subdirectory named \<open>.git\<close> is returned
  itself, even if a sibling listed earlier holds a nested marker directory. The loop
  tests and descends entry by entry, so the earlier sibling wins: in \<open>nested_ws\<close> at
  \<open>/w\<close> the search returns \<open>/w/.cache/dep\<close>.
\<close>

theorem earlier_sibling_wins:
  "nested_ws = Directory
       [(js ''.cache'', Directory [(js ''dep'', Directory [(js ''.git'', Directory [])])]),
        (js ''.git'', Directory []),
        (js ''src'', Unreadable)]
   \<and> findGitRootInSubdirectories (js ''/w'') nested_ws = Inr (Some (js ''/w/.cache/dep''))
   \<and> findGitRootInSubdirectories (js ''/w'') nested_ws \<noteq> Inr (Some (js ''/w''))"
  by (simp add: nested_ws_def path_eval)

text \<open>
  C2, amended: for a starting directory with a subdirectory named \<open>.git\<close>, where every
  subdirectory listed before that marker can be listed throughout, the search never
  visits an entry listed after the marker and returns the first root found in the
  entries listed before it, in listing order and depth first, and the starting
  directory itself where there is none: so the starting directory is returned provided
  no subdirectory listed before the marker holds a marker directory, and a sibling
  listed earlier that holds a nested marker directory has its root returned instead.
\<close>

theorem marker_child_search:
  "isDirectory d \<Longrightarrow> list_all (\<lambda>e. listable (snd e)) pre \<Longrightarrow>
   findGitRootInSubdirectories p (Directory (pre @ (js ''.git'', d) # post))
     = Inr (Some (case marker_roots_in p pre of [] \<Rightarrow> p | r # _ \<Rightarrow> r))
   \<and> (list_all (\<lambda>e. isDirectory (snd e) \<longrightarrow>
                     fst e \<noteq> js ''.git'' \<and> marker_free (snd e)) pre
        \<longrightarrow> findGitRootInSubdirectories p (Directory (pre @ (js ''.git'', d) # post))
              = Inr (Some p))"
proof -
  assume d: "isDirectory d" and pre: "list_all (\<lambda>e. listable (snd e)) pre"
  have f: "find_in_items p pre = Inr (first_of (marker_roots_in p pre))"
    using pre by (rule search_finds_first(2))
  have g: "findGitRootInSubdirectories p (Directory (pre @ (js ''.git'', d) # post))
     = Inr (Some (case marker_roots_in p pre of [] \<Rightarrow> p | r # _ \<Rightarrow> r))"
    using d f by (cases "marker_roots_in p pre") (simp_all add: find_in_items_append first_of_def)
  have "marker_roots_in p pre = []"
    if "list_all (\<lambda>e. isDirectory (snd e) \<longrightarrow>
                     fst e \<noteq> js ''.git'' \<and> marker_free (snd e)) pre"
    using that by (rule marker_free_roots(2))
  with g show ?thesis by simp
qed

theorem marker_child_search_witness:
  "isDirectory (Directory [])
   \<and> list_all (\<lambda>e. listable (snd e))
        [(js ''a.txt'', Other), (js ''.cache'', Directory [(js ''tmp'', Directory [])])]
   \<and> list_all (\<lambda>e. isDirectory (snd e) \<longrightarrow> fst e \<noteq> js ''.git'' \<and> marker_free (snd e))
        [(js ''a.txt'', Other), (js ''.cache'', Directory [(js ''tmp'', Directory [])])]
   \<and> findGitRootInSubdirectories (js ''/w'')
        (Directory ([(js ''a.txt'', Other), (js ''.cache'', Directory [(js ''tmp'', Directory [])])]
                    @ (js ''.git'', Directory []) # [(js ''src'', Unreadable)]))
      = Inr (Some (js ''/w''))
   \<and> list_all (\<lambda>e. listable (snd e))
        [(js ''.cache'', Directory [(js ''dep'', Directory [(js ''.git'', Directory [])])])]
   \<and> marker_roots_in (js ''/w'')
        [(js ''.cache'', Directory [(js ''dep'', Directory [(js ''.git'', Directory [])])])]
      = [js ''/w/.cache/dep'']
   \<and> findGitRootInSubdirectories (js ''/w'')
        (Directory ([(js ''.cache'', Directory [(js ''dep'', Directory [(js ''.git'', Directory [])])])]
                    @ (js ''.git'', Directory []) # [(js ''src'', Unreadable)]))
      = Inr (Some (js ''/w/.cache/dep''))"
proof -
  let ?clean = "[(js ''a.txt'', Other), (js ''.cache'', Directory [(js ''tmp'', Directory [])])]"
  let ?nested = "[(js ''.cache'', Directory [(js ''dep'', Directory [(js ''.git'', Directory [])])])]"
  have d: "isDirectory (Directory [])" by simp
  have l1: "list_all (\<lambda>e. listable (snd e)) ?clean" by simp
  have f1: "list_all (\<lambda>e. isDirectory (snd e) \<longrightarrow> fst e \<noteq> js ''.git'' \<and> marker_free (snd e))
              ?clean"
    by (simp add: js_def)
  have l2: "list_all (\<lambda>e. listable (snd e)) ?nested" by simp
  have m2: "marker_roots_in (js ''/w'') ?nested = [js ''/w/.cache/dep'']"
    by (simp add: path_eval)
  have r1: "findGitRootInSubdirectories (js ''/w'')
              (Directory (?clean @ (js ''.git'', Directory []) # [(js ''src'', Unreadable)]))
            = Inr (Some (js ''/w''))"
    using marker_child_search[OF d l1, of "js ''/w''" "[(js ''src'', Unreadable)]"] f1
    by blast
  have r2: "findGitRootInSubdirectories (js ''/w'')
              (Directory (?nested @ (js ''.git'', Directory []) # [(js ''src'', Unreadable)]))
            = Inr (Some (js ''/w/.cache/dep''))"
    using marker_child_search[OF d l2, of "js ''/w''" "[(js ''src'', Unreadable)]"]
    unfolding m2 by simp
  show ?thesis by (intro conjI d l1 f1 r1 l2 m2 r2)
qed

subsection \<open>C10\<close>

text \<open>
  C10: a path the search returns is the starting path or a path formed from it by
  joining, one after the other, the names of a chain of subdirectories that leads down
  from the starting directory; never an ancestor.
\<close>

theorem found_root_is_below_start:
  "findGitRootInSubdirectories p node = Inr (Some r) \<Longrightarrow>
     \<exists>names. subdir_chain node names \<and> r = path_below p names"
  by (rule found_is_below(1))

theorem found_root_is_below_start_witness:
  "findGitRootInSubdirectories (js ''/w'') nested_ws = Inr (Some (js ''/w/.cache/dep''))
   \<and> (\<exists>names. subdir_chain nested_ws names \<and> js ''/w/.cache/dep'' = path_below (js ''/w'') names)"
proof -
  have f: "findGitRootInSubdirectories (js ''/w'') nested_ws = Inr (Some (js ''/w/.cache/dep''))"
    by (simp add: nested_ws_def path_eval)
  from found_root_is_below_start[OF f] f show ?thesis by blast
qed

section \<open>Properties of the URL extraction\<close>

lemmas match_eval =
  extractUrlsFromConfig_def js_def match_here_def match_equals_def match_group_def
  is_space_def is_line_terminator_def trim_def

subsection \<open>C9\<close>

text \<open>
  C9: the pattern is anchored neither to the start of a line nor to the key \<open>url\<close>: on
  the single line \<open>pushurl = https://x\<close> the extraction returns \<open>https://x\<close>, and so it
  does where \<open>url =\<close> stands in the middle of a comment line.
\<close>

theorem pushurl_is_extracted:
  "extractUrlsFromConfig (js ''pushurl = https://x'') = [js ''https://x'']
   \<and> extractUrlsFromConfig (js ''# no url= here'') = [js ''here'']"
  by (simp add: match_eval)

subsection \<open>C3\<close>

text \<open>
  The specification's reading of the extraction, line by line. \<open>text_lines\<close> are the
  lines of a text, what stands between line terminators. A line of the form
  \<open>url = X\<close> is optional white space, the key \<open>url\<close>, optional white space, \<open>=\<close>,
  optional white space and \<open>X\<close>, the rest of the line; \<open>url_line_value\<close> gives \<open>X\<close>.
  \<open>url_values\<close> are the values of the lines of that form, in order, each without its
  trailing white space.
\<close>

fun text_lines :: "jsstring \<Rightarrow> jsstring list" where
  "text_lines [] = [[]]"
| "text_lines (c # cs) =
     (if is_line_terminator c then [] # text_lines cs
      else (case text_lines cs of
              [] \<Rightarrow> [[c]]
            | l # ls \<Rightarrow> (c # l) # ls))"

definition trim_end :: "jsstring \<Rightarrow> jsstring" where
  "trim_end s = rev (dropWhile is_space (rev s))"

definition url_line_value :: "jsstring \<Rightarrow> jsstring option" where
  "url_line_value l =
     (let l1 = dropWhile is_space l
      in if take 3 l1 = js ''url'' then
           (case dropWhile is_space (drop 3 l1) of
              [] \<Rightarrow> None
            | c # l3 \<Rightarrow> if c = 61 then Some (dropWhile is_space l3) else None)
         else None)"

fun url_values :: "jsstring list \<Rightarrow> jsstring list" where
  "url_values [] = []"
| "url_values (l # ls) =
     (case url_line_value l of
        None \<Rightarrow> url_values ls
      | Some x \<Rightarrow> trim_end x # url_values ls)"

text \<open>
  \<open>has_url_assignment\<close>: somewhere in the line stands \<open>url\<close>, then optional white
  space, then \<open>=\<close> or the end of the line. \<open>line_ok\<close>: a line of the form \<open>url = X\<close>
  has a value that is not empty, and any other line has no such assignment in it.
\<close>

fun has_url_assignment :: "jsstring \<Rightarrow> bool" where
  "has_url_assignment [] = False"
| "has_url_assignment (c # cs) =
     ((take 3 (c # cs) = js ''url''
       \<and> (case dropWhile is_space (drop 3 (c # cs)) of [] \<Rightarrow> True | d # _ \<Rightarrow> d = 61))
      \<or> has_url_assignment cs)"

definition line_ok :: "jsstring \<Rightarrow> bool" where
  "line_ok l =
     (case url_line_value l of
        Some x \<Rightarrow> x \<noteq> []
      | None \<Rightarrow> \<not> has_url_assignment l)"

lemma space_not_u: "is_space c \<Longrightarrow> c \<noteq> 117"
  by (auto simp: is_space_def)

lemma space_not_eq: "is_space c \<Longrightarrow> c \<noteq> 61"
  by (auto simp: is_space_def)

lemma terminator_is_space: "is_line_terminator c \<Longrightarrow> is_space c"
  by (auto simp: is_space_def is_line_terminator_def)

lemma match_here_not_u: "c \<noteq> 117 \<Longrightarrow> match_here (c # s) = None"
  by (simp add: match_here_def js_def)

lemma exec_skip_space: "is_space c \<Longrightarrow> exec (c # s) = exec s"
  by (simp add: match_here_not_u space_not_u)

lemma exec_skip_spaces: "\<forall>c\<in>set w. is_space c \<Longrightarrow> exec (w @ s) = exec s"
  by (induction w) (simp_all add: exec_skip_space del: exec.simps)

lemma match_space_group_skip:
  "\<forall>c\<in>set w. is_space c \<Longrightarrow> match_space_group s = Some r \<Longrightarrow>
     match_space_group (w @ s) = Some r"
  by (induction w) simp_all

lemma match_space_equals_skip:
  "\<forall>c\<in>set w. is_space c \<Longrightarrow> match_space_equals s = Some r \<Longrightarrow>
     match_space_equals (w @ s) = Some r"
  by (induction w) simp_all

lemma match_space_equals_fails:
  "\<forall>c\<in>set w. is_space c \<Longrightarrow> \<not> is_space d \<Longrightarrow> d \<noteq> 61 \<Longrightarrow>
     match_space_equals (w @ d # s) = None"
  by (induction w) (simp_all add: match_equals_def space_not_eq)

text \<open>What follows a line: nothing, or a line terminator.\<close>

definition line_end :: "jsstring \<Rightarrow> bool" where
  "line_end rest = (case rest of [] \<Rightarrow> True | t # _ \<Rightarrow> is_line_terminator t)"

lemma match_group_line:
  "x \<noteq> [] \<Longrightarrow> \<forall>c\<in>set x. \<not> is_line_terminator c \<Longrightarrow>
   line_end rest \<Longrightarrow>
   match_group (x @ rest) = Some (x, rest)"
proof -
  assume x: "x \<noteq> []" and free: "\<forall>c\<in>set x. \<not> is_line_terminator c"
    and rest: "line_end rest"
  have "takeWhile (\<lambda>c. \<not> is_line_terminator c) rest = []"
    using rest by (cases rest) (simp_all add: line_end_def)
  then have "takeWhile (\<lambda>c. \<not> is_line_terminator c) (x @ rest) = x"
    using free by (simp add: takeWhile_append2)
  then show ?thesis using x by (simp add: match_group_def)
qed

lemma match_space_group_line:
  assumes "x \<noteq> []" "\<not> is_space (hd x)" "\<forall>c\<in>set x. \<not> is_line_terminator c"
    "line_end rest"
    "\<forall>c\<in>set w. is_space c"
  shows "match_space_group (w @ x @ rest) = Some (x, rest)"
proof -
  obtain c cs where x: "x = c # cs" using assms(1) by (cases x) auto
  have "match_space_group (x @ rest) = match_group (x @ rest)"
    using assms(2) by (simp add: x)
  then have "match_space_group (x @ rest) = Some (x, rest)"
    using match_group_line[OF assms(1,3,4)] by simp
  with assms(5) show ?thesis by (rule match_space_group_skip)
qed

lemma url_line_value_SomeD:
  assumes "url_line_value l = Some x"
  shows "take 3 (dropWhile is_space l) = js ''url''"
    and "\<exists>l3. dropWhile is_space (drop 3 (dropWhile is_space l)) = 61 # l3
              \<and> x = dropWhile is_space l3"
proof -
  let ?l1 = "dropWhile is_space l"
  let ?r = "dropWhile is_space (drop 3 ?l1)"
  show u: "take 3 ?l1 = js ''url''"
  proof (rule ccontr)
    assume "take 3 ?l1 \<noteq> js ''url''"
    then have "url_line_value l = None"
      unfolding url_line_value_def Let_def by (simp only: if_False)
    with assms show False by simp
  qed
  have v: "url_line_value l
      = (case ?r of [] \<Rightarrow> None
         | c # l3 \<Rightarrow> if c = 61 then Some (dropWhile is_space l3) else None)"
    unfolding url_line_value_def Let_def using u by (simp only: refl if_True)
  show "\<exists>l3. ?r = 61 # l3 \<and> x = dropWhile is_space l3"
  proof (cases ?r)
    case Nil
    with v assms show ?thesis by (simp only: list.case option.distinct)
  next
    case (Cons c l3)
    with v assms have "(if c = 61 then Some (dropWhile is_space l3) else None) = Some x"
      by (simp only: list.case)
    then have "c = 61" "x = dropWhile is_space l3"
      by (simp_all split: if_splits)
    with Cons show ?thesis by blast
  qed
qed

lemma url_line_shape:
  assumes "url_line_value l = Some x"
  shows "\<exists>w1 w2 w3. l = w1 @ js ''url'' @ w2 @ 61 # w3 @ x
           \<and> (\<forall>c\<in>set w1. is_space c) \<and> (\<forall>c\<in>set w2. is_space c)
           \<and> (\<forall>c\<in>set w3. is_space c) \<and> (x \<noteq> [] \<longrightarrow> \<not> is_space (hd x))"
proof -
  let ?l1 = "dropWhile is_space l"
  let ?l2 = "drop 3 ?l1"
  have u: "take 3 ?l1 = js ''url''"
    using assms by (rule url_line_value_SomeD(1))
  obtain l3 where l3: "dropWhile is_space ?l2 = 61 # l3"
    and x: "x = dropWhile is_space l3"
    using url_line_value_SomeD(2)[OF assms] by blast
  define w1 where "w1 = takeWhile is_space l"
  define w2 where "w2 = takeWhile is_space ?l2"
  define w3 where "w3 = takeWhile is_space l3"
  have a: "l = w1 @ ?l1"
    unfolding w1_def by (rule takeWhile_dropWhile_id[symmetric])
  have b: "?l1 = js ''url'' @ ?l2"
    using append_take_drop_id[of 3 ?l1] unfolding u by (rule sym)
  have c: "?l2 = w2 @ 61 # l3"
    using takeWhile_dropWhile_id[of is_space ?l2] unfolding l3 w2_def by (rule sym)
  have d: "l3 = w3 @ x"
    unfolding w3_def x by (rule takeWhile_dropWhile_id[symmetric])
  have "l = w1 @ js ''url'' @ w2 @ 61 # w3 @ x"
    using a b c d by metis
  moreover have "\<forall>c\<in>set w1. is_space c" "\<forall>c\<in>set w2. is_space c" "\<forall>c\<in>set w3. is_space c"
    unfolding w1_def w2_def w3_def by (auto dest: set_takeWhileD)
  moreover have "x \<noteq> [] \<longrightarrow> \<not> is_space (hd x)"
    unfolding x by (auto simp: hd_dropWhile)
  ultimately show ?thesis by blast
qed

lemma match_here_url: "match_here (js ''url'' @ s) = match_space_equals s"
  by (simp add: match_here_def js_def)

lemma exec_url: "match_space_equals s = Some r \<Longrightarrow> exec (js ''url'' @ s) = Some r"
proof -
  assume "match_space_equals s = Some r"
  then have "match_here (js ''url'' @ s) = Some r" by (simp only: match_here_url)
  moreover have "js ''url'' @ s = 117 # (114 # 108 # s)" by (simp add: js_def)
  ultimately show ?thesis by (simp only: exec.simps option.case)
qed

lemma exec_url_line:
  assumes v: "url_line_value l = Some x" and x: "x \<noteq> []"
    and free: "\<forall>c\<in>set l. \<not> is_line_terminator c" and rest: "line_end rest"
  shows "exec (l @ rest) = Some (x, rest)"
proof -
  from url_line_shape[OF v] x obtain w1 w2 w3 where
    l: "l = w1 @ js ''url'' @ w2 @ 61 # w3 @ x"
    and w: "\<forall>c\<in>set w1. is_space c" "\<forall>c\<in>set w2. is_space c" "\<forall>c\<in>set w3. is_space c"
    and h: "\<not> is_space (hd x)"
    by blast
  have fx: "\<forall>c\<in>set x. \<not> is_line_terminator c"
    using free unfolding l by simp
  have g: "match_space_group (w3 @ x @ rest) = Some (x, rest)"
    using x h fx rest w(3) by (rule match_space_group_line)
  have "match_space_equals (61 # w3 @ x @ rest) = match_equals (61 # w3 @ x @ rest)"
    by (simp add: is_space_def)
  also have "\<dots> = Some (x, rest)"
    using g by (simp add: match_equals_def)
  finally have "match_space_equals (w2 @ 61 # w3 @ x @ rest) = Some (x, rest)"
    using w(2) by (intro match_space_equals_skip)
  then have "exec (js ''url'' @ w2 @ 61 # w3 @ x @ rest) = Some (x, rest)"
    by (rule exec_url)
  then have "exec (w1 @ js ''url'' @ w2 @ 61 # w3 @ x @ rest) = Some (x, rest)"
    using w(1) by (simp only: exec_skip_spaces)
  then show ?thesis unfolding l by simp
qed

lemma take3_url_cases:
  "take 3 s = js ''url'' \<Longrightarrow> \<exists>r. s = 117 # 114 # 108 # r"
proof -
  assume t: "take 3 s = js ''url''"
  have "s = take 3 s @ drop 3 s" by simp
  then have "s = js ''url'' @ drop 3 s" using t by simp
  then have "s = 117 # 114 # 108 # drop 3 s" by (simp add: js_def)
  then show ?thesis by (rule exI)
qed

lemma take3_line:
  assumes free: "\<forall>c\<in>set l. \<not> is_line_terminator c" and rest: "line_end rest"
    and t: "take 3 (l @ rest) = js ''url''"
  shows "take 3 l = js ''url''"
proof -
  from take3_url_cases[OF t] obtain r where r: "l @ rest = 117 # 114 # 108 # r" by blast
  have nt: "\<not> is_line_terminator 117" "\<not> is_line_terminator 114" "\<not> is_line_terminator 108"
    by (simp_all add: is_line_terminator_def)
  have hd_rest: "rest \<noteq> [] \<Longrightarrow> is_line_terminator (hd rest)"
    using rest by (cases rest) (simp_all add: line_end_def)
  show ?thesis
  proof (cases l)
    case Nil
    with r hd_rest nt show ?thesis by auto
  next
    case l1: (Cons a la)
    show ?thesis
    proof (cases la)
      case Nil
      with l1 r hd_rest nt show ?thesis by auto
    next
      case l2: (Cons b lb)
      show ?thesis
      proof (cases lb)
        case Nil
        with l1 l2 r hd_rest nt show ?thesis by auto
      next
        case (Cons c lc)
        with l1 l2 r show ?thesis by (simp add: js_def)
      qed
    qed
  qed
qed

lemma exec_plain_line:
  assumes "\<not> has_url_assignment l" "\<forall>c\<in>set l. \<not> is_line_terminator c" "line_end rest"
  shows "exec (l @ rest) = exec rest"
  using assms
proof (induction l)
  case Nil
  show ?case by simp
next
  case (Cons c cs)
  have IH: "exec (cs @ rest) = exec rest"
    using Cons by simp
  have "match_here ((c # cs) @ rest) = None"
  proof (cases "take 3 ((c # cs) @ rest) = js ''url''")
    case False
    then show ?thesis by (simp only: match_here_def if_False)
  next
    case True
    have t: "take 3 (c # cs) = js ''url''"
      using Cons.prems(2,3) True by (rule take3_line)
    let ?d = "drop 3 (c # cs)"
    have "\<not> (take 3 (c # cs) = js ''url''
             \<and> (case dropWhile is_space ?d of [] \<Rightarrow> True | d # _ \<Rightarrow> d = 61))"
      using Cons.prems(1) unfolding has_url_assignment.simps by blast
    with t have nc: "\<not> (case dropWhile is_space ?d of [] \<Rightarrow> True | d # _ \<Rightarrow> d = 61)"
      by blast
    obtain d r where d: "dropWhile is_space ?d = d # r" "d \<noteq> 61"
    proof (cases "dropWhile is_space ?d")
      case Nil
      from nc show ?thesis unfolding Nil by simp
    next
      case (Cons d r)
      from nc have "d \<noteq> 61" unfolding Cons by simp
      with Cons that show ?thesis by blast
    qed
    have nd: "\<not> is_space d"
      using d(1) by (metis hd_dropWhile list.distinct(1) list.sel(1))
    have e: "?d = takeWhile is_space ?d @ d # r"
      using takeWhile_dropWhile_id[of is_space ?d] unfolding d(1) by (rule sym)
    from take3_url_cases[OF t] obtain r0 where r0: "c # cs = 117 # 114 # 108 # r0"
      by blast
    have "drop 3 ((c # cs) @ rest) = ?d @ rest"
      unfolding r0 by simp
    then have "drop 3 ((c # cs) @ rest) = (takeWhile is_space ?d @ d # r) @ rest"
      using e by simp
    then have "drop 3 ((c # cs) @ rest) = takeWhile is_space ?d @ d # (r @ rest)"
      by simp
    moreover have "match_space_equals (takeWhile is_space ?d @ d # (r @ rest)) = None"
      using nd d(2) by (intro match_space_equals_fails) (auto dest: set_takeWhileD)
    ultimately show ?thesis
      using True by (simp only: match_here_def refl if_True)
  qed
  then show ?case using IH by simp
qed

lemma text_lines_nonempty: "text_lines t \<noteq> []"
  by (induction t) (auto split: list.splits)

lemma text_lines_first:
  "text_lines t =
     (case dropWhile (\<lambda>c. \<not> is_line_terminator c) t of
        [] \<Rightarrow> [takeWhile (\<lambda>c. \<not> is_line_terminator c) t]
      | c # rest \<Rightarrow> takeWhile (\<lambda>c. \<not> is_line_terminator c) t # text_lines rest)"
proof (induction t)
  case Nil
  show ?case by simp
next
  case (Cons a t)
  note IH = Cons.IH
  let ?P = "\<lambda>c. \<not> is_line_terminator c"
  show ?case
  proof (cases "is_line_terminator a")
    case True
    then show ?thesis by simp
  next
    case False
    have d: "dropWhile ?P (a # t) = dropWhile ?P t" "takeWhile ?P (a # t) = a # takeWhile ?P t"
      using False by simp_all
    have tl: "text_lines (a # t) = (case text_lines t of [] \<Rightarrow> [[a]] | l # ls \<Rightarrow> (a # l) # ls)"
      using False by simp
    show ?thesis
    proof (cases "dropWhile ?P t")
      case Nil
      have "text_lines t = [takeWhile ?P t]"
        using IH unfolding Nil by (simp only: list.case)
      then show ?thesis unfolding tl d Nil by (simp only: list.case)
    next
      case (Cons c rest)
      have "text_lines t = takeWhile ?P t # text_lines rest"
        using IH unfolding Cons by (simp only: list.case)
      then show ?thesis unfolding tl d Cons by (simp only: list.case)
    qed
  qed
qed

lemma extract_loop_None: "exec s = None \<Longrightarrow> extract_loop s u = u"
  by (subst extract_loop.simps) simp

lemma extract_loop_Some:
  "exec s = Some (g, r) \<Longrightarrow> extract_loop s u = extract_loop r (u @ [trim g])"
  by (subst extract_loop.simps) simp

lemma extract_loop_cong: "exec s = exec s' \<Longrightarrow> extract_loop s u = extract_loop s' u"
  by (subst extract_loop.simps, subst (2) extract_loop.simps) simp

lemma trim_value:
  "x \<noteq> [] \<Longrightarrow> \<not> is_space (hd x) \<Longrightarrow> trim x = trim_end x"
  by (cases x) (simp_all add: trim_def trim_end_def)

lemma url_value_hd:
  "url_line_value l = Some x \<Longrightarrow> x \<noteq> [] \<Longrightarrow> \<not> is_space (hd x)"
  using url_line_shape[of l x] by blast

lemma extract_loop_lines:
  "list_all line_ok (text_lines t) \<Longrightarrow>
     extract_loop t urls = urls @ url_values (text_lines t)"
proof (induction "length t" arbitrary: t urls rule: less_induct)
  case less
  let ?l = "takeWhile (\<lambda>c. \<not> is_line_terminator c) t"
  let ?T = "dropWhile (\<lambda>c. \<not> is_line_terminator c) t"
  have tt: "?l @ ?T = t" by simp
  have free: "\<forall>c\<in>set ?l. \<not> is_line_terminator c"
    by (auto dest: set_takeWhileD)
  show ?case
  proof (cases ?T)
    case Nil
    have le: "line_end ?T" unfolding Nil line_end_def by simp
    have tl: "text_lines t = [?l]"
      by (subst text_lines_first, unfold Nil) (simp only: list.case)
    with less.prems have ok: "line_ok ?l" by simp
    have e: "exec [] = None" by (simp add: match_here_def js_def)
    show ?thesis
    proof (cases "url_line_value ?l")
      case None
      with ok have "\<not> has_url_assignment ?l" by (simp add: line_ok_def)
      then have "exec (?l @ ?T) = exec ?T" using free le by (rule exec_plain_line)
      then have "exec t = exec ?T" unfolding tt .
      then have "exec t = None" unfolding Nil using e by simp
      then show ?thesis using None by (simp add: extract_loop_None tl)
    next
      case (Some x)
      with ok have x: "x \<noteq> []" by (simp add: line_ok_def)
      have "exec (?l @ ?T) = Some (x, ?T)" using Some x free le by (rule exec_url_line)
      then have "exec t = Some (x, ?T)" unfolding tt .
      then have "exec t = Some (x, [])" unfolding Nil .
      then have "extract_loop t urls = extract_loop [] (urls @ [trim x])"
        by (rule extract_loop_Some)
      also have "\<dots> = urls @ [trim x]" using e by (rule extract_loop_None)
      also have "trim x = trim_end x"
        using x url_value_hd[OF Some x] by (rule trim_value)
      finally show ?thesis using Some by (simp add: tl)
    qed
  next
    case (Cons c rest)
    have c: "is_line_terminator c"
      using hd_dropWhile[of "\<lambda>c. \<not> is_line_terminator c" t] unfolding Cons by simp
    have le: "line_end ?T" unfolding Cons line_end_def using c by simp
    have tl: "text_lines t = ?l # text_lines rest"
      by (subst text_lines_first, unfold Cons) (simp only: list.case)
    with less.prems have ok: "line_ok ?l" and oks: "list_all line_ok (text_lines rest)"
      by simp_all
    have "length (?l @ ?T) = length ?l + length (c # rest)"
      unfolding Cons by (simp only: length_append)
    then have shorter: "length rest < length t" unfolding tt by simp
    from c have skip: "exec (c # rest) = exec rest"
      by (intro exec_skip_space terminator_is_space)
    have IH: "extract_loop rest u = u @ url_values (text_lines rest)" for u
      using less.hyps[OF shorter oks] .
    show ?thesis
    proof (cases "url_line_value ?l")
      case None
      with ok have "\<not> has_url_assignment ?l" by (simp add: line_ok_def)
      then have "exec (?l @ ?T) = exec ?T" using free le by (rule exec_plain_line)
      then have "exec t = exec ?T" unfolding tt .
      then have "exec t = exec rest" unfolding Cons using skip by (rule trans)
      then have "extract_loop t urls = extract_loop rest urls" by (rule extract_loop_cong)
      then show ?thesis using None IH by (simp add: tl)
    next
      case (Some x)
      with ok have x: "x \<noteq> []" by (simp add: line_ok_def)
      have "exec (?l @ ?T) = Some (x, ?T)" using Some x free le by (rule exec_url_line)
      then have "exec t = Some (x, ?T)" unfolding tt .
      then have "exec t = Some (x, c # rest)" unfolding Cons .
      then have "extract_loop t urls = extract_loop (c # rest) (urls @ [trim x])"
        by (rule extract_loop_Some)
      also have "\<dots> = extract_loop rest (urls @ [trim x])"
        using skip by (rule extract_loop_cong)
      also have "\<dots> = (urls @ [trim x]) @ url_values (text_lines rest)" by (rule IH)
      also have "trim x = trim_end x"
        using x url_value_hd[OF Some x] by (rule trim_value)
      finally show ?thesis using Some by (simp add: tl)
    qed
  qed
qed

lemma length_url_values:
  "length (url_values ls) = length (filter (\<lambda>l. url_line_value l \<noteq> None) ls)"
  by (induction ls) (auto split: option.splits)

text \<open>A configuration with CRLF and LF line ends, a comment, and one URL twice.\<close>

definition sample_config :: jsstring where
  "sample_config =
     js ''[remote]'' @ [10]
     @ js ''  url = https://example.com/a.git  '' @ [13, 10]
     @ js ''fetch = +refs'' @ [10]
     @ js ''# url: see above'' @ [10]
     @ [9] @ js ''url=b'' @ [10]
     @ js ''url = https://example.com/a.git''"

text \<open>
  C3, as stated: the values returned are those of the lines of the form \<open>url = X\<close>,
  whatever the other lines hold. Not so: the line \<open>pushurl = b\<close> is not of that form
  and gives a value, so that one such line gives two values; and a line \<open>url =\<close> with
  nothing after it takes its value from the line below.
\<close>

theorem unrelated_lines_can_match:
  "url_values (text_lines (js ''url = a'' @ [10] @ js ''pushurl = b'')) = [js ''a'']
   \<and> extractUrlsFromConfig (js ''url = a'' @ [10] @ js ''pushurl = b'') = [js ''a'', js ''b'']
   \<and> url_values (text_lines (js ''url ='' @ [10] @ js ''[core]'')) = [[]]
   \<and> extractUrlsFromConfig (js ''url ='' @ [10] @ js ''[core]'') = [js ''[core]'']"
  by (simp add: match_eval url_line_value_def trim_end_def)

text \<open>
  C3, amended: for every text in which each line of the form \<open>url = X\<close> has a value
  that is not empty and no other line holds \<open>url\<close> followed by optional white space
  and \<open>=\<close> or the end of the line, the extraction returns exactly the values of the
  lines of that form, as many as there are such lines, from top to bottom, each
  without its trailing white space, duplicates kept.
\<close>

theorem urls_of_lines:
  "list_all line_ok (text_lines t) \<Longrightarrow>
     extractUrlsFromConfig t = url_values (text_lines t)
     \<and> length (extractUrlsFromConfig t)
         = length (filter (\<lambda>l. url_line_value l \<noteq> None) (text_lines t))"
  using extract_loop_lines[of t "[]"]
  by (simp add: extractUrlsFromConfig_def length_url_values)

theorem urls_of_lines_witness:
  "list_all line_ok (text_lines sample_config)
   \<and> url_values (text_lines sample_config)
       = [js ''https://example.com/a.git'', js ''b'', js ''https://example.com/a.git'']
   \<and> extractUrlsFromConfig sample_config
       = [js ''https://example.com/a.git'', js ''b'', js ''https://example.com/a.git'']
   \<and> length (extractUrlsFromConfig sample_config)
       = length (filter (\<lambda>l. url_line_value l \<noteq> None) (text_lines sample_config))"
proof -
  have l: "text_lines sample_config =
     [js ''[remote]'', js ''  url = https://example.com/a.git  '', [],
      js ''fetch = +refs'', js ''# url: see above'', [9] @ js ''url=b'',
      js ''url = https://example.com/a.git'']"
    by (simp add: sample_config_def js_def is_line_terminator_def)
  have a: "list_all line_ok (text_lines sample_config)"
    unfolding l
    by (simp add: line_ok_def url_line_value_def js_def is_space_def)
  have b: "url_values (text_lines sample_config)
       = [js ''https://example.com/a.git'', js ''b'', js ''https://example.com/a.git'']"
    unfolding l
    by (simp add: url_line_value_def trim_end_def js_def is_space_def)
  have c: "extractUrlsFromConfig sample_config = url_values (text_lines sample_config)"
    using urls_of_lines[OF a] by (rule conjunct1)
  have d: "length (extractUrlsFromConfig sample_config)
       = length (filter (\<lambda>l. url_line_value l \<noteq> None) (text_lines sample_config))"
    using urls_of_lines[OF a] by (rule conjunct2)
  have e: "extractUrlsFromConfig sample_config
       = [js ''https://example.com/a.git'', js ''b'', js ''https://example.com/a.git'']"
    using c b by (rule trans)
  show ?thesis by (intro conjI a b e d)
qed

section \<open>Properties of the aggregation\<close>

definition succeeded :: "'e + 'a \<Rightarrow> bool" where
  "succeeded r = (case r of Inl _ \<Rightarrow> False | Inr _ \<Rightarrow> True)"

text \<open>
  The steps the specification calls required: the root search finds a root, the four
  backend calls (current branch, status, commit log, diff summary) succeed on it and so
  does the build of the hierarchy.
\<close>

definition required_steps_succeed :: "world \<Rightarrow> jsstring \<Rightarrow> bool" where
  "required_steps_succeed w repoPath =
     (case findGitRootInSubdirectories repoPath (tree w) of
        Inl e \<Rightarrow> False
      | Inr found \<Rightarrow>
          truthy found
          \<and> succeeded (git_revparse (simpleGit w (the found)))
          \<and> succeeded (git_status (simpleGit w (the found)))
          \<and> succeeded (git_log (simpleGit w (the found)) None)
          \<and> succeeded (git_diffSummary (simpleGit w (the found)))
          \<and> succeeded (hierarchy_from w repoPath (the found)))"

text \<open>The log of the tracking branch succeeds, where the status reports one.\<close>

definition tracking_log_succeeds :: "world \<Rightarrow> jsstring \<Rightarrow> bool" where
  "tracking_log_succeeds w repoPath =
     (case findGitRootInSubdirectories repoPath (tree w) of
        Inl e \<Rightarrow> False
      | Inr found \<Rightarrow>
          (case git_status (simpleGit w (the found)) of
             Inl e \<Rightarrow> False
           | Inr st \<Rightarrow> succeeded (tracking_details (simpleGit w (the found)) st)))"

subsection \<open>Example worlds\<close>

text \<open>
  A repository at \<open>/w\<close> with an upstream, and variations of it: the upstream ref is
  gone, so that its log fails; the remote cannot be queried; the configuration file
  cannot be read; no upstream is configured.
\<close>

definition sample_git :: SimpleGit where
  "sample_git =
     \<lparr> git_listRemote = Inr (js ''https://example.com/a.git'' @ [10]),
       git_revparse = Inr (js ''main'' @ [10]),
       git_status = Inr \<lparr> tracking = Some (js ''origin/main''), current = Some (js ''main''),
                           modified = [js ''src/x.ts''] \<rparr>,
       git_log = (\<lambda>r. case r of
                          None \<Rightarrow> Inr \<lparr> all = [js ''c2'', js ''c1''] \<rparr>
                        | Some _ \<Rightarrow> Inr \<lparr> all = [js ''c1''] \<rparr>),
       git_diffSummary = Inr \<lparr> files = [js ''src/x.ts''] \<rparr> \<rparr>"

definition sample_world :: world where
  "sample_world =
     \<lparr> process_cwd = js ''/home/u'',
       tree = Directory [(js ''.git'', Directory [(js ''config'', Other)]),
                         (js ''src'', Directory [])],
       simpleGit = (\<lambda>_. sample_git),
       readFile = (\<lambda>p. if p = js ''/w/.git/config''
                        then Inr (js ''[remote]'' @ [10]
                                  @ js ''  url = https://example.com/a.git'' @ [10])
                        else Inl ENOENT) \<rparr>"

definition gone_upstream :: world where
  "gone_upstream =
     sample_world
       \<lparr> simpleGit := (\<lambda>_. sample_git
            \<lparr> git_log := (\<lambda>r. case r of
                                 None \<Rightarrow> Inr \<lparr> all = [js ''c2'', js ''c1''] \<rparr>
                               | Some _ \<Rightarrow> Inl (GitError (js ''unknown revision''))) \<rparr>) \<rparr>"

definition offline :: world where
  "offline =
     sample_world
       \<lparr> simpleGit := (\<lambda>_. sample_git \<lparr> git_listRemote := Inl (GitError (js ''spawn'')) \<rparr>) \<rparr>"

definition blank_remote :: world where
  "blank_remote =
     sample_world \<lparr> simpleGit := (\<lambda>_. sample_git \<lparr> git_listRemote := Inr [10] \<rparr>) \<rparr>"

definition no_config :: world where
  "no_config = sample_world \<lparr> readFile := (\<lambda>_. Inl EACCES) \<rparr>"

definition no_upstream :: world where
  "no_upstream =
     sample_world
       \<lparr> simpleGit := (\<lambda>_. sample_git
            \<lparr> git_status := Inr \<lparr> tracking = None, current = Some (js ''main''),
                                    modified = [] \<rparr> \<rparr>) \<rparr>"

lemmas world_eval =
  sample_world_def sample_git_def
  fetchRepositoryInfo_def hierarchy_from_def tracking_details_def read_config_def truthy_def
  required_steps_succeed_def tracking_log_succeeds_def succeeded_def
  resolve_def relative_def or_else_def Let_def

lemma fetch_succeeds_iff:
  "(\<exists>info. snd (fetchRepositoryInfo w p) = Inr info)
     \<longleftrightarrow> required_steps_succeed w p \<and> tracking_log_succeeds w p"
  unfolding fetchRepositoryInfo_def required_steps_succeed_def tracking_log_succeeds_def
  by (auto simp: Let_def succeeded_def split: sum.splits prod.splits)

lemma fetch_fails_silently:
  "snd (fetchRepositoryInfo w p) = Inl e \<Longrightarrow> fetchRepositoryInfo w p = ([], Inl e)"
  unfolding fetchRepositoryInfo_def
  by (auto simp: Let_def split: sum.splits prod.splits if_splits)

lemma fetch_not_found:
  "findGitRootInSubdirectories p (tree w) = Inr None \<Longrightarrow>
     fetchRepositoryInfo w p = ([], Inl no_repository)"
  by (simp add: fetchRepositoryInfo_def truthy_def)

subsection \<open>C4\<close>

text \<open>
  C4, as stated: a snapshot is returned exactly when the required steps succeed. Not
  so where the status reports a tracking branch whose log fails: in \<open>gone_upstream\<close>
  every required step succeeds and the call is rejected with the error of
  \<open>git.log([status.tracking])\<close>.
\<close>

theorem tracking_log_failure_is_fatal:
  "required_steps_succeed gone_upstream (js ''/w'')
   \<and> fetchRepositoryInfo gone_upstream (js ''/w'')
       = ([], Inl (GitFailure (GitError (js ''unknown revision''))))"
  by (simp add: gone_upstream_def world_eval path_eval)

text \<open>
  C4, amended: a snapshot is returned exactly when the root search finds a root, the
  four required backend calls and the build of the hierarchy succeed, and the log of
  the tracking branch succeeds where the status reports one. Where the root search
  returns \<open>null\<close> the call is rejected with the no-repository error; whenever one of
  those steps fails the call is rejected, nothing is shown and no snapshot is returned.
\<close>

theorem snapshot_iff_steps_succeed:
  "((\<exists>info. snd (fetchRepositoryInfo w p) = Inr info)
      \<longleftrightarrow> required_steps_succeed w p \<and> tracking_log_succeeds w p)
   \<and> (findGitRootInSubdirectories p (tree w) = Inr None
        \<longrightarrow> fetchRepositoryInfo w p = ([], Inl no_repository))
   \<and> (\<not> (required_steps_succeed w p \<and> tracking_log_succeeds w p)
        \<longrightarrow> (\<exists>e. fetchRepositoryInfo w p = ([], Inl e)))"
proof (intro conjI impI)
  show "(\<exists>info. snd (fetchRepositoryInfo w p) = Inr info)
      \<longleftrightarrow> required_steps_succeed w p \<and> tracking_log_succeeds w p"
    by (rule fetch_succeeds_iff)
next
  assume "findGitRootInSubdirectories p (tree w) = Inr None"
  then show "fetchRepositoryInfo w p = ([], Inl no_repository)" by (rule fetch_not_found)
next
  assume "\<not> (required_steps_succeed w p \<and> tracking_log_succeeds w p)"
  then have "\<not> (\<exists>info. snd (fetchRepositoryInfo w p) = Inr info)"
    by (simp add: fetch_succeeds_iff)
  then obtain e where "snd (fetchRepositoryInfo w p) = Inl e"
    by (cases "snd (fetchRepositoryInfo w p)") auto
  then show "\<exists>e. fetchRepositoryInfo w p = ([], Inl e)"
    by (blast dest: fetch_fails_silently)
qed

theorem snapshot_iff_steps_succeed_witness:
  "required_steps_succeed sample_world (js ''/w'')
   \<and> tracking_log_succeeds sample_world (js ''/w'')
   \<and> (\<exists>info. snd (fetchRepositoryInfo sample_world (js ''/w'')) = Inr info)
   \<and> findGitRootInSubdirectories (js ''/w/src'') (tree (sample_world \<lparr> tree := Directory [] \<rparr>))
       = Inr None
   \<and> fetchRepositoryInfo (sample_world \<lparr> tree := Directory [] \<rparr>) (js ''/w/src'')
       = ([], Inl no_repository)
   \<and> required_steps_succeed gone_upstream (js ''/w'')
   \<and> \<not> tracking_log_succeeds gone_upstream (js ''/w'')
   \<and> (\<exists>e. fetchRepositoryInfo gone_upstream (js ''/w'') = ([], Inl e))"
proof -
  have a: "required_steps_succeed sample_world (js ''/w'')"
    by (simp add: world_eval path_eval)
  have b: "tracking_log_succeeds sample_world (js ''/w'')"
    by (simp add: world_eval path_eval)
  have c: "findGitRootInSubdirectories (js ''/w/src'')
             (tree (sample_world \<lparr> tree := Directory [] \<rparr>)) = Inr None"
    by simp
  have d: "required_steps_succeed gone_upstream (js ''/w'')"
    by (simp add: gone_upstream_def world_eval path_eval)
  have e: "\<not> tracking_log_succeeds gone_upstream (js ''/w'')"
    by (simp add: gone_upstream_def world_eval path_eval)
  show ?thesis
    using snapshot_iff_steps_succeed[of sample_world "js ''/w''"]
      snapshot_iff_steps_succeed[of "sample_world \<lparr> tree := Directory [] \<rparr>" "js ''/w/src''"]
      snapshot_iff_steps_succeed[of gone_upstream "js ''/w''"]
      a b c d e
    by blast
qed

subsection \<open>C5\<close>

text \<open>
  C5: where every other step succeeds and reading \<open>.git/config\<close> fails, the call still
  returns a snapshot, its \<open>configUrls\<close> empty, and the error is shown to the user with
  \<open>showErrorMessage\<close> instead of being passed on.
\<close>

theorem config_failure_is_recoverable:
  "required_steps_succeed w p \<Longrightarrow> tracking_log_succeeds w p \<Longrightarrow>
   findGitRootInSubdirectories p (tree w) = Inr (Some gitRoot) \<Longrightarrow>
   readFile w (join [gitRoot, js ''.git'', js ''config'']) = Inl e \<Longrightarrow>
   \<exists>info. fetchRepositoryInfo w p
             = ([ErrorMessage (js ''Error reading config file: '') e], Inr info)
          \<and> configUrls info = []"
  unfolding fetchRepositoryInfo_def required_steps_succeed_def tracking_log_succeeds_def
    read_config_def
  by (auto simp: Let_def succeeded_def split: sum.splits)

theorem config_failure_is_recoverable_witness:
  "required_steps_succeed no_config (js ''/w'')
   \<and> tracking_log_succeeds no_config (js ''/w'')
   \<and> findGitRootInSubdirectories (js ''/w'') (tree no_config) = Inr (Some (js ''/w''))
   \<and> readFile no_config (join [js ''/w'', js ''.git'', js ''config'']) = Inl EACCES
   \<and> (\<exists>info. fetchRepositoryInfo no_config (js ''/w'')
                = ([ErrorMessage (js ''Error reading config file: '') EACCES], Inr info)
             \<and> configUrls info = [])"
proof -
  have a: "required_steps_succeed no_config (js ''/w'')"
    by (simp add: no_config_def world_eval path_eval)
  have b: "tracking_log_succeeds no_config (js ''/w'')"
    by (simp add: no_config_def world_eval path_eval)
  have c: "findGitRootInSubdirectories (js ''/w'') (tree no_config) = Inr (Some (js ''/w''))"
    by (simp add: no_config_def world_eval path_eval)
  have d: "readFile no_config (join [js ''/w'', js ''.git'', js ''config'']) = Inl EACCES"
    by (simp add: no_config_def)
  from config_failure_is_recoverable[OF a b c d] a b c d show ?thesis by blast
qed

subsection \<open>C6\<close>

text \<open>
  C6: where every other step succeeds and the remote-URL query is rejected, the call
  still returns a snapshot and its \<open>url\<close> is the empty string; so it is where the query
  answers with nothing but white space, as for no remote.
\<close>

theorem remote_failure_gives_empty_url:
  "required_steps_succeed w p \<Longrightarrow> tracking_log_succeeds w p \<Longrightarrow>
   findGitRootInSubdirectories p (tree w) = Inr (Some gitRoot) \<Longrightarrow>
   git_listRemote (simpleGit w gitRoot) = Inl e
     \<or> (\<exists>u. git_listRemote (simpleGit w gitRoot) = Inr u \<and> trim u = []) \<Longrightarrow>
   \<exists>info. snd (fetchRepositoryInfo w p) = Inr info \<and> url info = []"
  unfolding fetchRepositoryInfo_def required_steps_succeed_def tracking_log_succeeds_def
  by (auto simp: Let_def succeeded_def truthy_def split: sum.splits prod.splits)

theorem remote_failure_gives_empty_url_witness:
  "required_steps_succeed offline (js ''/w'')
   \<and> tracking_log_succeeds offline (js ''/w'')
   \<and> findGitRootInSubdirectories (js ''/w'') (tree offline) = Inr (Some (js ''/w''))
   \<and> git_listRemote (simpleGit offline (js ''/w'')) = Inl (GitError (js ''spawn''))
   \<and> (\<exists>info. snd (fetchRepositoryInfo offline (js ''/w'')) = Inr info \<and> url info = [])
   \<and> required_steps_succeed blank_remote (js ''/w'')
   \<and> tracking_log_succeeds blank_remote (js ''/w'')
   \<and> findGitRootInSubdirectories (js ''/w'') (tree blank_remote) = Inr (Some (js ''/w''))
   \<and> git_listRemote (simpleGit blank_remote (js ''/w'')) = Inr [10] \<and> trim [10] = []
   \<and> (\<exists>info. snd (fetchRepositoryInfo blank_remote (js ''/w'')) = Inr info \<and> url info = [])"
proof -
  have a: "required_steps_succeed offline (js ''/w'')"
    by (simp add: offline_def world_eval path_eval)
  have b: "tracking_log_succeeds offline (js ''/w'')"
    by (simp add: offline_def world_eval path_eval)
  have c: "findGitRootInSubdirectories (js ''/w'') (tree offline) = Inr (Some (js ''/w''))"
    by (simp add: offline_def world_eval path_eval)
  have d: "git_listRemote (simpleGit offline (js ''/w'')) = Inl (GitError (js ''spawn''))"
    by (simp add: offline_def sample_git_def)
  have a': "required_steps_succeed blank_remote (js ''/w'')"
    by (simp add: blank_remote_def world_eval path_eval)
  have b': "tracking_log_succeeds blank_remote (js ''/w'')"
    by (simp add: blank_remote_def world_eval path_eval)
  have c': "findGitRootInSubdirectories (js ''/w'') (tree blank_remote) = Inr (Some (js ''/w''))"
    by (simp add: blank_remote_def world_eval path_eval)
  have d': "git_listRemote (simpleGit blank_remote (js ''/w'')) = Inr [10]"
    by (simp add: blank_remote_def sample_git_def)
  have t: "trim [10] = []"
    by (simp add: trim_def is_space_def)
  have d1: "git_listRemote (simpleGit offline (js ''/w'')) = Inl (GitError (js ''spawn''))
     \<or> (\<exists>u. git_listRemote (simpleGit offline (js ''/w'')) = Inr u \<and> trim u = [])"
    using d by simp
  have d2: "git_listRemote (simpleGit blank_remote (js ''/w'')) = Inl (GitError (js ''spawn''))
     \<or> (\<exists>u. git_listRemote (simpleGit blank_remote (js ''/w'')) = Inr u \<and> trim u = [])"
    using d' t by simp
  from remote_failure_gives_empty_url[OF a b c d1]
    remote_failure_gives_empty_url[OF a' b' c' d2] a b c d a' b' c' d' t
  show ?thesis by blast
qed

subsection \<open>C8\<close>

text \<open>
  C8: where the required steps succeed and the status reports no tracking branch, the
  call returns a snapshot whose \<open>branchDetails\<close> is empty; where it reports one and the
  log of that branch is fetched, the snapshot's \<open>branchDetails\<close> holds that log.
\<close>

theorem tracking_branch_history:
  "required_steps_succeed w p \<Longrightarrow>
   findGitRootInSubdirectories p (tree w) = Inr (Some gitRoot) \<Longrightarrow>
   git_status (simpleGit w gitRoot) = Inr st \<Longrightarrow>
   (tracking st = None
      \<longrightarrow> (\<exists>info. snd (fetchRepositoryInfo w p) = Inr info \<and> branchDetails info = []))
   \<and> (\<forall>t l. tracking st = Some t \<and> t \<noteq> [] \<and> git_log (simpleGit w gitRoot) (Some t) = Inr l
      \<longrightarrow> (\<exists>info. snd (fetchRepositoryInfo w p) = Inr info \<and> branchDetails info = [l]))"
  unfolding fetchRepositoryInfo_def required_steps_succeed_def tracking_details_def
  by (auto simp: Let_def succeeded_def truthy_def split: sum.splits prod.splits option.splits)

theorem tracking_branch_history_witness:
  "required_steps_succeed no_upstream (js ''/w'')
   \<and> findGitRootInSubdirectories (js ''/w'') (tree no_upstream) = Inr (Some (js ''/w''))
   \<and> git_status (simpleGit no_upstream (js ''/w''))
       = Inr \<lparr> tracking = None, current = Some (js ''main''), modified = [] \<rparr>
   \<and> (\<exists>info. snd (fetchRepositoryInfo no_upstream (js ''/w'')) = Inr info
              \<and> branchDetails info = [])
   \<and> required_steps_succeed sample_world (js ''/w'')
   \<and> findGitRootInSubdirectories (js ''/w'') (tree sample_world) = Inr (Some (js ''/w''))
   \<and> git_status (simpleGit sample_world (js ''/w''))
       = Inr \<lparr> tracking = Some (js ''origin/main''), current = Some (js ''main''),
               modified = [js ''src/x.ts''] \<rparr>
   \<and> git_log (simpleGit sample_world (js ''/w'')) (Some (js ''origin/main''))
       = Inr \<lparr> all = [js ''c1''] \<rparr>
   \<and> (\<exists>info. snd (fetchRepositoryInfo sample_world (js ''/w'')) = Inr info
              \<and> branchDetails info = [\<lparr> all = [js ''c1''] \<rparr>])"
proof -
  have a: "required_steps_succeed no_upstream (js ''/w'')"
    by (simp add: no_upstream_def world_eval path_eval)
  have b: "findGitRootInSubdirectories (js ''/w'') (tree no_upstream) = Inr (Some (js ''/w''))"
    by (simp add: no_upstream_def world_eval path_eval)
  have c: "git_status (simpleGit no_upstream (js ''/w''))
       = Inr \<lparr> tracking = None, current = Some (js ''main''), modified = [] \<rparr>"
    by (simp add: no_upstream_def sample_git_def)
  have a': "required_steps_succeed sample_world (js ''/w'')"
    by (simp add: world_eval path_eval)
  have b': "findGitRootInSubdirectories (js ''/w'') (tree sample_world) = Inr (Some (js ''/w''))"
    by (simp add: world_eval path_eval)
  have c': "git_status (simpleGit sample_world (js ''/w''))
       = Inr \<lparr> tracking = Some (js ''origin/main''), current = Some (js ''main''),
               modified = [js ''src/x.ts''] \<rparr>"
    by (simp add: sample_world_def sample_git_def)
  have d': "git_log (simpleGit sample_world (js ''/w'')) (Some (js ''origin/main''))
       = Inr \<lparr> all = [js ''c1''] \<rparr>"
    by (simp add: sample_world_def sample_git_def)
  have n: "js ''origin/main'' \<noteq> []" by (simp add: js_def)
  from tracking_branch_history[OF a b c] tracking_branch_history[OF a' b' c'] d' n
    a b c a' b' c'
  show ?thesis by auto
qed

section \<open>Properties of the path functions\<close>

text \<open>
  How \<open>split_on\<close>, \<open>intercalate\<close> and the segment stack behave on names as listings
  give them, and from there what \<open>join\<close>, \<open>resolve\<close> and \<open>relative\<close> return for a path
  below another.
\<close>

lemma split_on_nonempty: "split_on sep s \<noteq> []"
  by (induction s) (auto split: list.splits)

lemma split_on_append:
  "split_on sep (a @ sep # b) = split_on sep a @ split_on sep b"
  by (induction a) (auto split: list.splits simp: split_on_nonempty)

lemma split_on_no_sep: "sep \<notin> set s \<Longrightarrow> split_on sep s = [s]"
  by (induction s) auto

lemma split_on_free: "x \<in> set (split_on sep s) \<Longrightarrow> sep \<notin> set x"
  by (induction s arbitrary: x) (auto split: if_splits list.splits)

lemma split_on_intercalate:
  "segs \<noteq> [] \<Longrightarrow> \<forall>x\<in>set segs. sep \<notin> set x \<Longrightarrow>
     split_on sep (intercalate sep segs) = segs"
proof (induction sep segs rule: intercalate.induct)
  case (3 sep s t ss)
  then show ?case by (simp add: split_on_append split_on_no_sep)
qed (simp_all add: split_on_no_sep)

lemma intercalate_append:
  "xs \<noteq> [] \<Longrightarrow> ys \<noteq> [] \<Longrightarrow>
     intercalate sep (xs @ ys) = intercalate sep xs @ sep # intercalate sep ys"
proof (induction sep xs rule: intercalate.induct)
  case (2 sep s)
  then show ?case by (cases ys) auto
qed auto

lemma intercalate_nonempty:
  "xs \<noteq> [] \<Longrightarrow> \<forall>x\<in>set xs. x \<noteq> [] \<Longrightarrow> intercalate sep xs \<noteq> []"
  by (induction sep xs rule: intercalate.induct) auto

lemma intercalate_hd:
  "xs \<noteq> [] \<Longrightarrow> \<forall>x\<in>set xs. x \<noteq> [] \<Longrightarrow> hd (intercalate sep xs) = hd (hd xs)"
  by (induction sep xs rule: intercalate.induct) auto

text \<open>
  A name as a directory listing gives it: not empty, without a separator, and neither
  \<open>.\<close> nor \<open>..\<close>. A segment that \<open>normalizeString\<close> keeps may also be \<open>..\<close>.
\<close>

definition valid_name :: "jsstring \<Rightarrow> bool" where
  "valid_name n = (n \<noteq> [] \<and> slash \<notin> set n \<and> n \<noteq> js ''.'' \<and> n \<noteq> js ''..'')"

definition kept :: "jsstring \<Rightarrow> bool" where
  "kept x = (x \<noteq> [] \<and> slash \<notin> set x \<and> x \<noteq> js ''.'')"

lemma segment_step_valid:
  "valid_name n \<Longrightarrow> segment_step b acc n = acc @ [n]"
  by (simp add: segment_step_def valid_name_def)

lemma fold_valid:
  "list_all valid_name ns \<Longrightarrow> foldl (segment_step b) acc ns = acc @ ns"
  by (induction ns arbitrary: acc) (simp_all add: segment_step_valid)

lemma segment_step_kept:
  "\<forall>x\<in>set acc. kept x \<Longrightarrow> slash \<notin> set seg \<Longrightarrow>
     \<forall>x\<in>set (segment_step b acc seg). kept x"
  by (auto simp: segment_step_def kept_def js_def slash_def dest: in_set_butlastD)

lemma fold_kept:
  "\<forall>x\<in>set acc. kept x \<Longrightarrow> \<forall>x\<in>set segs. slash \<notin> set x \<Longrightarrow>
     \<forall>x\<in>set (foldl (segment_step b) acc segs). kept x"
proof (induction segs arbitrary: acc)
  case Nil
  then show ?case by simp
next
  case (Cons seg segs)
  have "\<forall>x\<in>set (segment_step b acc seg). kept x"
    using Cons.prems by (intro segment_step_kept) auto
  then show ?case using Cons by simp
qed

lemma fold_split_kept:
  "\<forall>x\<in>set (foldl (segment_step b) [] (split_on slash p)). kept x"
  by (rule fold_kept) (auto dest: split_on_free)

text \<open>Normalising a relative path first does not change where it resolves to.\<close>

lemma fold_relative_first:
  "\<forall>x\<in>set xs. slash \<notin> set x \<Longrightarrow>
   foldl (segment_step False) c (foldl (segment_step True) [] xs)
     = foldl (segment_step False) c xs"
proof (induction xs rule: rev_induct)
  case Nil
  show ?case by simp
next
  case (snoc x xs)
  let ?R = "foldl (segment_step True) [] xs"
  have IH: "foldl (segment_step False) c ?R = foldl (segment_step False) c xs"
    using snoc by simp
  have keptR: "\<forall>y\<in>set ?R. kept y"
    using snoc.prems by (intro fold_kept) auto
  show ?case
  proof (cases "x = js ''..'' \<and> ?R \<noteq> [] \<and> last ?R \<noteq> js ''..''")
    case True
    then have v: "valid_name (last ?R)"
      using keptR by (auto simp: valid_name_def kept_def)
    have R: "?R = butlast ?R @ [last ?R]" using True by simp
    have "foldl (segment_step False) c ?R
            = foldl (segment_step False) c (butlast ?R) @ [last ?R]"
      by (subst R) (simp add: segment_step_valid[OF v])
    then have "segment_step False (foldl (segment_step False) c ?R) x
            = foldl (segment_step False) c (butlast ?R)"
      using True v by (simp add: segment_step_def valid_name_def js_def)
    moreover have "segment_step True ?R x = butlast ?R"
      using True by (simp add: segment_step_def js_def)
    ultimately show ?thesis using IH by simp
  next
    case False
    then have "segment_step True ?R x = ?R \<or> segment_step True ?R x = ?R @ [x]"
      by (auto simp: segment_step_def)
    then show ?thesis
    proof
      assume a: "segment_step True ?R x = ?R"
      then have "x = [] \<or> x = js ''.''" using False
        by (auto simp: segment_step_def split: if_splits)
      then have "segment_step False (foldl (segment_step False) c xs) x
                   = foldl (segment_step False) c xs"
        by (auto simp: segment_step_def)
      then show ?thesis using a IH by simp
    next
      assume a: "segment_step True ?R x = ?R @ [x]"
      then show ?thesis using IH by simp
    qed
  qed
qed

text \<open>
  The segments of the absolute path that \<open>p\<close> resolves to in the working directory
  \<open>cwd\<close>.
\<close>

definition absolute_segments :: "jsstring \<Rightarrow> jsstring \<Rightarrow> jsstring list" where
  "absolute_segments cwd p =
     (if isAbsolute p then foldl (segment_step False) [] (split_on slash p)
      else foldl (segment_step False) [] (split_on slash cwd @ split_on slash p))"

lemma split_on_trailing: "split_on sep (a @ [sep]) = split_on sep a @ [[]]"
  using split_on_append[of sep a "[]"] by simp

lemma segment_step_empty: "segment_step b acc [] = acc"
  by (simp add: segment_step_def)

lemma resolve_one:
  "isAbsolute cwd \<Longrightarrow> resolve cwd [p] = slash # intercalate slash (absolute_segments cwd p)"
  by (cases "p = []")
     (auto simp: resolve_def absolute_segments_def normalizeString_def isAbsolute_def
        split_on_trailing split_on_append segment_step_empty split: list.splits)

lemma resolve_two:
  "isAbsolute cwd \<Longrightarrow> nm \<noteq> [] \<Longrightarrow> \<not> isAbsolute nm \<Longrightarrow>
   resolve cwd [root, nm]
     = slash # intercalate slash
         (foldl (segment_step False) (absolute_segments cwd root) (split_on slash nm))"
  by (cases "root = []")
     (auto simp: resolve_def absolute_segments_def normalizeString_def isAbsolute_def
        split_on_trailing split_on_append segment_step_empty split: list.splits)

lemma valid_name_not_absolute: "valid_name n \<Longrightarrow> \<not> isAbsolute n"
  by (cases n) (auto simp: valid_name_def isAbsolute_def)

lemma join_valid:
  assumes "valid_name n"
  shows "join [p, n] =
     (if isAbsolute p then [slash] else [])
     @ intercalate slash (foldl (segment_step (\<not> isAbsolute p)) [] (split_on slash p) @ [n])"
proof -
  let ?b = "\<not> isAbsolute p"
  let ?R = "foldl (segment_step ?b) [] (split_on slash p)"
  have n: "n \<noteq> []" "slash \<notin> set n"
    using assms by (auto simp: valid_name_def)
  have l: "last n \<noteq> slash"
    using n by (metis last_in_set)
  have q: "intercalate slash (?R @ [n]) \<noteq> []"
    using n fold_split_kept[of ?b p]
    by (intro intercalate_nonempty) (auto simp: kept_def)
  show ?thesis
  proof (cases "p = []")
    case True
    have e: "\<not> isAbsolute []" by (simp add: isAbsolute_def)
    from True show ?thesis
      using assms n q l e
      by (simp add: join_def normalize_path_def normalizeString_def Let_def
          valid_name_not_absolute split_on_no_sep segment_step_valid segment_step_empty)
  next
    case False
    have abs: "isAbsolute (p @ slash # n) = isAbsolute p"
      using False by (cases p) (auto simp: isAbsolute_def)
    have "normalizeString (p @ slash # n) ?b = intercalate slash (?R @ [n])"
      by (simp add: normalizeString_def split_on_append split_on_no_sep n
          segment_step_valid[OF assms])
    then show ?thesis
      using False n q l abs by (simp add: join_def normalize_path_def Let_def)
  qed
qed

lemma segment_step_abs_valid:
  "\<forall>x\<in>set acc. valid_name x \<Longrightarrow> slash \<notin> set seg \<Longrightarrow>
     \<forall>x\<in>set (segment_step False acc seg). valid_name x"
  by (auto simp: segment_step_def valid_name_def dest: in_set_butlastD)

lemma fold_abs_valid:
  "\<forall>x\<in>set acc. valid_name x \<Longrightarrow> \<forall>x\<in>set segs. slash \<notin> set x \<Longrightarrow>
     \<forall>x\<in>set (foldl (segment_step False) acc segs). valid_name x"
proof (induction segs arbitrary: acc)
  case Nil
  then show ?case by simp
next
  case (Cons seg segs)
  have "\<forall>x\<in>set (segment_step False acc seg). valid_name x"
    using Cons.prems by (intro segment_step_abs_valid) auto
  then show ?case using Cons by simp
qed

lemma fold_split_valid:
  "\<forall>x\<in>set (foldl (segment_step False) [] (split_on slash p)). valid_name x"
  by (rule fold_abs_valid) (auto dest: split_on_free)

lemma fold_split2_valid:
  "\<forall>x\<in>set (foldl (segment_step False) [] (split_on slash c @ split_on slash p)). valid_name x"
  by (rule fold_abs_valid) (auto dest: split_on_free)

lemma absolute_segments_valid:
  "list_all valid_name (absolute_segments cwd p)"
  unfolding list_all_iff absolute_segments_def
  using fold_split_valid[of p] fold_split2_valid[of cwd p] by (cases "isAbsolute p") auto

lemma kept_hd: "kept x \<Longrightarrow> hd x \<noteq> slash"
  by (cases x) (auto simp: kept_def)

lemma join_absolute:
  "valid_name n \<Longrightarrow> isAbsolute p \<Longrightarrow>
     join [p, n]
       = slash # intercalate slash (foldl (segment_step False) [] (split_on slash p) @ [n])"
  using join_valid[of n p] by simp

lemma join_relative:
  "valid_name n \<Longrightarrow> \<not> isAbsolute p \<Longrightarrow>
     join [p, n]
       = intercalate slash (foldl (segment_step True) [] (split_on slash p) @ [n])"
  using join_valid[of n p] by simp

lemma split_segments_again:
  assumes "valid_name n"
  shows "split_on slash
           (intercalate slash (foldl (segment_step b) [] (split_on slash p) @ [n]))
         = foldl (segment_step b) [] (split_on slash p) @ [n]"
proof (rule split_on_intercalate)
  show "foldl (segment_step b) [] (split_on slash p) @ [n] \<noteq> []" by simp
  show "\<forall>x\<in>set (foldl (segment_step b) [] (split_on slash p) @ [n]). slash \<notin> set x"
    using fold_split_kept[of b p] assms by (auto simp: kept_def valid_name_def)
qed

lemma join_relative_not_absolute:
  assumes "valid_name n" "\<not> isAbsolute p"
  shows "\<not> isAbsolute (join [p, n])"
proof -
  let ?R = "foldl (segment_step True) [] (split_on slash p)"
  have k: "\<forall>x\<in>set (?R @ [n]). kept x"
    using fold_split_kept[of True p] assms(1) by (auto simp: kept_def valid_name_def)
  then have ne: "\<forall>x\<in>set (?R @ [n]). x \<noteq> []" by (auto simp: kept_def)
  have "hd (?R @ [n]) \<in> set (?R @ [n])" by (intro hd_in_set) simp
  with k have "kept (hd (?R @ [n]))" by blast
  then have "hd (hd (?R @ [n])) \<noteq> slash" by (rule kept_hd)
  moreover have "hd (intercalate slash (?R @ [n])) = hd (hd (?R @ [n]))"
    using ne by (intro intercalate_hd) simp_all
  ultimately have "hd (join [p, n]) \<noteq> slash"
    by (simp add: join_relative[OF assms])
  then show ?thesis
    by (cases "join [p, n]") (simp_all add: isAbsolute_def)
qed

lemma absolute_segments_join:
  assumes "valid_name n"
  shows "absolute_segments cwd (join [p, n]) = absolute_segments cwd p @ [n]"
proof (cases "isAbsolute p")
  case True
  let ?R = "foldl (segment_step False) [] (split_on slash p)"
  have j: "join [p, n] = slash # intercalate slash (?R @ [n])"
    using assms True by (rule join_absolute)
  have a: "isAbsolute (join [p, n])"
    unfolding j by (simp add: isAbsolute_def)
  have s: "split_on slash (join [p, n]) = [] # (?R @ [n])"
    unfolding j by (simp add: split_segments_again[OF assms])
  have "list_all valid_name (?R @ [n])"
    using fold_split_valid[of p] assms by (simp add: list_all_iff)
  then have f: "foldl (segment_step False) [] (?R @ [n]) = ?R @ [n]"
    using fold_valid[of "?R @ [n]" False "[]"] by simp
  have "absolute_segments cwd (join [p, n]) = foldl (segment_step False) [] ([] # (?R @ [n]))"
    unfolding absolute_segments_def using a s by simp
  also have "\<dots> = ?R @ [n]"
    using f by (simp add: segment_step_empty del: foldl_append)
  also have "\<dots> = absolute_segments cwd p @ [n]"
    unfolding absolute_segments_def using True by simp
  finally show ?thesis .
next
  case False
  let ?R = "foldl (segment_step True) [] (split_on slash p)"
  let ?C = "foldl (segment_step False) [] (split_on slash cwd)"
  have j: "join [p, n] = intercalate slash (?R @ [n])"
    using assms False by (rule join_relative)
  have a: "\<not> isAbsolute (join [p, n])"
    using assms False by (rule join_relative_not_absolute)
  have s: "split_on slash (join [p, n]) = ?R @ [n]"
    unfolding j by (rule split_segments_again[OF assms])
  have r: "foldl (segment_step False) ?C ?R = foldl (segment_step False) ?C (split_on slash p)"
    by (rule fold_relative_first) (auto dest: split_on_free)
  have "absolute_segments cwd (join [p, n]) = foldl (segment_step False) ?C (?R @ [n])"
    unfolding absolute_segments_def using a s by simp
  also have "\<dots> = foldl (segment_step False) ?C (split_on slash p) @ [n]"
    using r by (simp add: segment_step_valid[OF assms])
  also have "\<dots> = absolute_segments cwd p @ [n]"
    unfolding absolute_segments_def using False by simp
  finally show ?thesis .
qed

lemma common_prefix_length_append: "common_prefix_length f (f @ r) = length f"
proof (induction f)
  case Nil
  show ?case by (cases r) simp_all
next
  case (Cons a f)
  then show ?case by simp
qed

lemma relative_below:
  assumes cwd: "isAbsolute cwd"
    and segs: "absolute_segments cwd t = absolute_segments cwd f @ ns"
    and ns: "ns \<noteq> []" "list_all valid_name ns"
  shows "relative cwd f t = intercalate slash ns"
proof -
  let ?A = "absolute_segments cwd f"
  have neq: "f \<noteq> t" using segs ns by auto
  have rf: "resolve cwd [f] = slash # intercalate slash ?A"
    using cwd by (rule resolve_one)
  have rt: "resolve cwd [t] = slash # intercalate slash (?A @ ns)"
    using cwd segs by (simp add: resolve_one)
  have nsne: "\<forall>x\<in>set ns. x \<noteq> []"
    using ns(2) by (auto simp: list_all_iff valid_name_def)
  have ins: "intercalate slash ns \<noteq> []"
    using ns(1) nsne by (rule intercalate_nonempty)
  show ?thesis
  proof (cases "?A = []")
    case True
    have "hd (intercalate slash ns) = hd (hd ns)"
      using ns(1) nsne by (rule intercalate_hd)
    moreover have "hd (hd ns) \<noteq> slash"
    proof -
      have "hd ns \<in> set ns" using ns(1) by simp
      then have "kept (hd ns)" using ns(2) by (auto simp: list_all_iff valid_name_def kept_def)
      then show ?thesis by (rule kept_hd)
    qed
    ultimately have h: "intercalate slash ns ! 0 \<noteq> slash"
      using ins by (simp add: hd_conv_nth)
    have c: "common_prefix_length [] (intercalate slash ns) = 0"
      by (cases "intercalate slash ns") simp_all
    show ?thesis
      using neq ins h c by (simp add: relative_def rf rt True Let_def)
  next
    case False
    let ?F = "intercalate slash ?A"
    have ia: "intercalate slash (?A @ ns) = ?F @ slash # intercalate slash ns"
      using False ns(1) by (rule intercalate_append)
    have c: "common_prefix_length ?F (?F @ slash # intercalate slash ns) = length ?F"
      by (rule common_prefix_length_append)
    show ?thesis
      using neq c by (simp add: relative_def rf rt ia Let_def)
  qed
qed

section \<open>Properties of the hierarchy\<close>

text \<open>
  \<open>valid_names\<close>: every entry of the tree has a name a listing can give. \<open>nodes t\<close> are
  the nodes of a hierarchy, itself first. \<open>dir_paths p node\<close> lists the paths of the
  directories of the tree \<open>node\<close> standing at \<open>p\<close>, itself first, and \<open>count_dirs\<close>
  counts them; neither knows a marker directory from another. \<open>labelled\<close>: the name of
  the node, resolved against the root, is where its path resolves to.
\<close>

fun valid_names :: "fsnode \<Rightarrow> bool" where
  "valid_names (Directory entries) =
     list_all (\<lambda>e. valid_name (fst e) \<and> valid_names (snd e)) entries"
| "valid_names Other = True"
| "valid_names Unreadable = True"

fun nodes :: "DirectoryInfo \<Rightarrow> DirectoryInfo list" where
  "nodes (DirectoryInfo n p subs) = DirectoryInfo n p subs # concat (map nodes subs)"

fun dir_paths :: "jsstring \<Rightarrow> fsnode \<Rightarrow> jsstring list"
and dir_paths_in :: "jsstring \<Rightarrow> (jsstring \<times> fsnode) list \<Rightarrow> jsstring list" where
  "dir_paths p (Directory entries) = p # dir_paths_in p entries"
| "dir_paths p Other = []"
| "dir_paths p Unreadable = [p]"
| "dir_paths_in p [] = []"
| "dir_paths_in p ((item_name, item) # rest) =
     dir_paths (join [p, item_name]) item @ dir_paths_in p rest"

fun count_dirs :: "fsnode \<Rightarrow> nat"
and count_dirs_in :: "(jsstring \<times> fsnode) list \<Rightarrow> nat" where
  "count_dirs (Directory entries) = Suc (count_dirs_in entries)"
| "count_dirs Other = 0"
| "count_dirs Unreadable = 1"
| "count_dirs_in [] = 0"
| "count_dirs_in ((item_name, item) # rest) = count_dirs item + count_dirs_in rest"

definition labelled :: "jsstring \<Rightarrow> jsstring \<Rightarrow> DirectoryInfo \<Rightarrow> bool" where
  "labelled cwd root n = (resolve cwd [root, name n] = resolve cwd [path n])"

text \<open>
  \<open>dir_labels ns node\<close> lists what the directories of the tree \<open>node\<close> are called from
  the root, itself first, \<open>ns\<close> being the names that lead from the root down to \<open>node\<close>:
  the root is \<open>.\<close> and a directory below it is the names of the entries that lead to
  it, joined by \<open>/\<close>. The labels are made of entry names only, whatever the path of
  the root.
\<close>

definition label_of :: "jsstring list \<Rightarrow> jsstring" where
  "label_of ns = (if ns = [] then js ''.'' else intercalate slash ns)"

fun dir_labels :: "jsstring list \<Rightarrow> fsnode \<Rightarrow> jsstring list"
and dir_labels_in :: "jsstring list \<Rightarrow> (jsstring \<times> fsnode) list \<Rightarrow> jsstring list" where
  "dir_labels ns (Directory entries) = label_of ns # dir_labels_in ns entries"
| "dir_labels ns Other = []"
| "dir_labels ns Unreadable = [label_of ns]"
| "dir_labels_in ns [] = []"
| "dir_labels_in ns ((item_name, item) # rest) =
     dir_labels (ns @ [item_name]) item @ dir_labels_in ns rest"

lemma length_dir_paths:
  "length (dir_paths p node) = count_dirs node"
  "length (dir_paths_in p items) = count_dirs_in items"
  by (induction p node and p items rule: dir_paths_dir_paths_in.induct) simp_all

lemma hierarchy_total:
  "isDirectory node \<Longrightarrow> listable node \<Longrightarrow>
     \<exists>t. getDirectoryHierarchy cwd dirPath basePath node = Inr t
         \<and> map path (nodes t) = dir_paths dirPath node"
  "list_all (\<lambda>e. listable (snd e)) items \<Longrightarrow>
     \<exists>new. hierarchy_items cwd dirPath basePath items subs = Inr (subs @ new)
         \<and> concat (map (\<lambda>s. map path (nodes s)) new) = dir_paths_in dirPath items"
proof (induction cwd dirPath basePath node and cwd dirPath basePath items subs
    rule: getDirectoryHierarchy_hierarchy_items.induct)
  case (1 cwd dirPath basePath entries)
  then obtain new where
    "hierarchy_items cwd dirPath basePath entries [] = Inr ([] @ new)"
    "concat (map (\<lambda>s. map path (nodes s)) new) = dir_paths_in dirPath entries"
    by auto
  then show ?case by (simp add: map_concat comp_def)
next
  case (5 cwd dirPath basePath item_name item rest subs)
  show ?case
  proof (cases "isDirectory item")
    case False
    then have "item = Other" by (cases item) auto
    with 5 False show ?thesis by simp
  next
    case True
    from 5 True obtain t where
      t: "getDirectoryHierarchy cwd (join [dirPath, item_name]) basePath item = Inr t"
         "map path (nodes t) = dir_paths (join [dirPath, item_name]) item"
      by auto
    from "5.IH"(2)[OF True t(1)] "5.prems" obtain new where
      n: "hierarchy_items cwd dirPath basePath rest (subs @ [t]) = Inr ((subs @ [t]) @ new)"
         "concat (map (\<lambda>s. map path (nodes s)) new) = dir_paths_in dirPath rest"
      by auto
    have "hierarchy_items cwd dirPath basePath ((item_name, item) # rest) subs
            = Inr (subs @ (t # new))"
      using True t(1) n(1) by simp
    moreover have "concat (map (\<lambda>s. map path (nodes s)) (t # new))
            = dir_paths_in dirPath ((item_name, item) # rest)"
      using t(2) n(2) by simp
    ultimately show ?thesis by blast
  qed
qed simp_all

lemma resolve_self:
  "isAbsolute cwd \<Longrightarrow> resolve cwd [root, js ''.''] = resolve cwd [root]"
proof -
  assume c: "isAbsolute cwd"
  have "\<not> isAbsolute (js ''.'')" "js ''.'' \<noteq> []"
    by (simp_all add: isAbsolute_def js_def slash_def)
  then have "resolve cwd [root, js ''.'']
      = slash # intercalate slash
          (foldl (segment_step False) (absolute_segments cwd root) (split_on slash (js ''.'')))"
    using c by (intro resolve_two) simp_all
  moreover have "split_on slash (js ''.'') = [js ''.'']"
    by (simp add: js_def slash_def)
  ultimately show ?thesis
    using c by (simp add: resolve_one segment_step_def)
qed

lemma resolve_below:
  assumes c: "isAbsolute cwd"
    and ns: "ns \<noteq> []" "list_all valid_name ns"
  shows "resolve cwd [root, intercalate slash ns]
           = slash # intercalate slash (absolute_segments cwd root @ ns)"
proof -
  have nsne: "\<forall>x\<in>set ns. x \<noteq> []"
    using ns(2) by (auto simp: list_all_iff valid_name_def)
  have free: "\<forall>x\<in>set ns. slash \<notin> set x"
    using ns(2) by (auto simp: list_all_iff valid_name_def)
  have ne: "intercalate slash ns \<noteq> []"
    using ns(1) nsne by (rule intercalate_nonempty)
  have "hd (intercalate slash ns) = hd (hd ns)"
    using ns(1) nsne by (rule intercalate_hd)
  moreover have "hd (hd ns) \<noteq> slash"
  proof -
    have "hd ns \<in> set ns" using ns(1) by simp
    then have "kept (hd ns)" using ns(2) by (auto simp: list_all_iff valid_name_def kept_def)
    then show ?thesis by (rule kept_hd)
  qed
  ultimately have na: "\<not> isAbsolute (intercalate slash ns)"
    using ne by (cases "intercalate slash ns") (simp_all add: isAbsolute_def)
  have sp: "split_on slash (intercalate slash ns) = ns"
    using ns(1) free by (rule split_on_intercalate)
  show ?thesis
    using resolve_two[OF c ne na, of root] by (simp add: sp fold_valid[OF ns(2)])
qed

lemma node_label:
  assumes c: "isAbsolute cwd"
    and segs: "absolute_segments cwd dirPath = absolute_segments cwd basePath @ ns"
    and top: "ns = [] \<longrightarrow> dirPath = basePath"
    and ns: "list_all valid_name ns"
  shows "resolve cwd [basePath, or_else (relative cwd basePath dirPath) (js ''.'')]
           = resolve cwd [dirPath]"
proof (cases "ns = []")
  case True
  with top have "dirPath = basePath" by simp
  then show ?thesis
    using c by (simp add: relative_def or_else_def resolve_self)
next
  case False
  have nsne: "\<forall>x\<in>set ns. x \<noteq> []"
    using ns by (auto simp: list_all_iff valid_name_def)
  have r: "relative cwd basePath dirPath = intercalate slash ns"
    using c segs False ns by (rule relative_below)
  have "intercalate slash ns \<noteq> []"
    using False nsne by (rule intercalate_nonempty)
  then have "or_else (relative cwd basePath dirPath) (js ''.'') = intercalate slash ns"
    by (simp add: r or_else_def)
  then show ?thesis
    using resolve_below[OF c False ns, of basePath] segs c by (simp add: resolve_one)
qed

lemma hierarchy_labels:
  "isAbsolute cwd \<Longrightarrow> valid_names node \<Longrightarrow>
   absolute_segments cwd dirPath = absolute_segments cwd basePath @ ns \<Longrightarrow>
   (ns = [] \<longrightarrow> dirPath = basePath) \<Longrightarrow> list_all valid_name ns \<Longrightarrow>
   getDirectoryHierarchy cwd dirPath basePath node = Inr t \<Longrightarrow>
   \<forall>n\<in>set (nodes t). labelled cwd basePath n"
  "isAbsolute cwd \<Longrightarrow> list_all (\<lambda>e. valid_name (fst e) \<and> valid_names (snd e)) items \<Longrightarrow>
   absolute_segments cwd dirPath = absolute_segments cwd basePath @ ns \<Longrightarrow>
   list_all valid_name ns \<Longrightarrow>
   hierarchy_items cwd dirPath basePath items subs = Inr subs' \<Longrightarrow>
   \<forall>s\<in>set subs. \<forall>n\<in>set (nodes s). labelled cwd basePath n \<Longrightarrow>
   \<forall>s\<in>set subs'. \<forall>n\<in>set (nodes s). labelled cwd basePath n"
proof (induction cwd dirPath basePath node and cwd dirPath basePath items subs
    arbitrary: ns t and ns subs'
    rule: getDirectoryHierarchy_hierarchy_items.induct)
  case (1 cwd dirPath basePath entries)
  from "1.prems"(6) obtain subs where
    s: "hierarchy_items cwd dirPath basePath entries [] = Inr subs"
    and t: "t = DirectoryInfo (or_else (relative cwd basePath dirPath) (js ''.'')) dirPath subs"
    by (auto split: sum.splits)
  have "\<forall>s\<in>set subs. \<forall>n\<in>set (nodes s). labelled cwd basePath n"
    using "1.IH"[OF "1.prems"(1) _ "1.prems"(3) "1.prems"(5) s] "1.prems"(2) by simp
  moreover have "labelled cwd basePath t"
    unfolding labelled_def t using node_label[OF "1.prems"(1,3,4,5)] by simp
  ultimately show ?case by (auto simp: t)
next
  case (5 cwd dirPath basePath item_name item rest subs)
  have v: "valid_name item_name" "valid_names item"
    "list_all (\<lambda>e. valid_name (fst e) \<and> valid_names (snd e)) rest"
    using "5.prems"(2) by simp_all
  show ?case
  proof (cases "isDirectory item")
    case False
    with "5.prems"(5) have "hierarchy_items cwd dirPath basePath rest subs = Inr subs'" by simp
    from "5.IH"(3)[OF False "5.prems"(1) v(3) "5.prems"(3,4) this "5.prems"(6)]
    show ?thesis .
  next
    case True
    let ?q = "join [dirPath, item_name]"
    from "5.prems"(5) True obtain t where
      t: "getDirectoryHierarchy cwd ?q basePath item = Inr t"
      and r: "hierarchy_items cwd dirPath basePath rest (subs @ [t]) = Inr subs'"
      by (auto split: sum.splits)
    have q: "absolute_segments cwd ?q = absolute_segments cwd basePath @ (ns @ [item_name])"
      using absolute_segments_join[OF v(1), of cwd dirPath] "5.prems"(3) by simp
    have "\<forall>n\<in>set (nodes t). labelled cwd basePath n"
      using "5.IH"(1)[OF True "5.prems"(1) v(2) q _ _ t] "5.prems"(4) v(1) by simp
    then have "\<forall>s\<in>set (subs @ [t]). \<forall>n\<in>set (nodes s). labelled cwd basePath n"
      using "5.prems"(6) by auto
    from "5.IH"(2)[OF True t "5.prems"(1) v(3) "5.prems"(3,4) r this]
    show ?thesis .
  qed
qed simp_all

lemma resolve_join_absolute:
  assumes c: "isAbsolute cwd" and n: "valid_name n" and p: "isAbsolute p"
  shows "resolve cwd [join [p, n]] = join [p, n]"
proof -
  have "absolute_segments cwd p = foldl (segment_step False) [] (split_on slash p)"
    using p by (simp add: absolute_segments_def)
  then have j: "join [p, n] = slash # intercalate slash (absolute_segments cwd p @ [n])"
    using join_absolute[OF n p] by simp
  have "resolve cwd [join [p, n]]
          = slash # intercalate slash (absolute_segments cwd (join [p, n]))"
    using c by (rule resolve_one)
  also have "\<dots> = slash # intercalate slash (absolute_segments cwd p @ [n])"
    by (simp only: absolute_segments_join[OF n])
  also have "\<dots> = join [p, n]"
    by (rule j[symmetric])
  finally show ?thesis .
qed

lemma resolved_is_absolute:
  "isAbsolute cwd \<Longrightarrow> resolve cwd [p] = p \<Longrightarrow> isAbsolute p"
  using resolve_one[of cwd p] by (cases p) (auto simp: isAbsolute_def)

lemma dir_paths_resolved:
  "isAbsolute cwd \<Longrightarrow> valid_names node \<Longrightarrow> resolve cwd [p] = p \<Longrightarrow>
     \<forall>q\<in>set (dir_paths p node). resolve cwd [q] = q"
  "isAbsolute cwd \<Longrightarrow> list_all (\<lambda>e. valid_name (fst e) \<and> valid_names (snd e)) items \<Longrightarrow>
   resolve cwd [p] = p \<Longrightarrow>
     \<forall>q\<in>set (dir_paths_in p items). resolve cwd [q] = q"
proof (induction p node and p items rule: dir_paths_dir_paths_in.induct)
  case (5 p item_name item rest)
  have v: "valid_name item_name" "valid_names item"
    "list_all (\<lambda>e. valid_name (fst e) \<and> valid_names (snd e)) rest"
    using "5.prems"(2) by simp_all
  have "isAbsolute p" using "5.prems"(1,3) by (rule resolved_is_absolute)
  then have "resolve cwd [join [p, item_name]] = join [p, item_name]"
    using "5.prems"(1) v(1) by (intro resolve_join_absolute)
  with 5 v show ?case by auto
qed simp_all

lemma own_label:
  assumes c: "isAbsolute cwd"
    and segs: "absolute_segments cwd dirPath = absolute_segments cwd basePath @ ns"
    and top: "ns = [] \<longrightarrow> dirPath = basePath"
    and ns: "list_all valid_name ns"
  shows "or_else (relative cwd basePath dirPath) (js ''.'') = label_of ns"
proof (cases "ns = []")
  case True
  with top have "dirPath = basePath" by simp
  then show ?thesis using True by (simp add: relative_def or_else_def label_of_def)
next
  case False
  have nsne: "\<forall>x\<in>set ns. x \<noteq> []"
    using ns by (auto simp: list_all_iff valid_name_def)
  have r: "relative cwd basePath dirPath = intercalate slash ns"
    using c segs False ns by (rule relative_below)
  have "intercalate slash ns \<noteq> []"
    using False nsne by (rule intercalate_nonempty)
  then show ?thesis using False by (simp add: r or_else_def label_of_def)
qed

lemma hierarchy_names:
  "isAbsolute cwd \<Longrightarrow> valid_names node \<Longrightarrow>
   absolute_segments cwd dirPath = absolute_segments cwd basePath @ ns \<Longrightarrow>
   (ns = [] \<longrightarrow> dirPath = basePath) \<Longrightarrow> list_all valid_name ns \<Longrightarrow>
   getDirectoryHierarchy cwd dirPath basePath node = Inr t \<Longrightarrow>
   map name (nodes t) = dir_labels ns node"
  "isAbsolute cwd \<Longrightarrow> list_all (\<lambda>e. valid_name (fst e) \<and> valid_names (snd e)) items \<Longrightarrow>
   absolute_segments cwd dirPath = absolute_segments cwd basePath @ ns \<Longrightarrow>
   list_all valid_name ns \<Longrightarrow>
   hierarchy_items cwd dirPath basePath items subs = Inr subs' \<Longrightarrow>
   \<exists>new. subs' = subs @ new
       \<and> concat (map (\<lambda>s. map name (nodes s)) new) = dir_labels_in ns items"
proof (induction cwd dirPath basePath node and cwd dirPath basePath items subs
    arbitrary: ns t and ns subs'
    rule: getDirectoryHierarchy_hierarchy_items.induct)
  case (1 cwd dirPath basePath entries)
  from "1.prems"(6) obtain subs where
    s: "hierarchy_items cwd dirPath basePath entries [] = Inr subs"
    and t: "t = DirectoryInfo (or_else (relative cwd basePath dirPath) (js ''.'')) dirPath subs"
    by (auto split: sum.splits)
  from "1.IH"[OF "1.prems"(1) _ "1.prems"(3) "1.prems"(5) s] "1.prems"(2)
  have "concat (map (\<lambda>s. map name (nodes s)) subs) = dir_labels_in ns entries"
    by auto
  moreover have "or_else (relative cwd basePath dirPath) (js ''.'') = label_of ns"
    using "1.prems"(1,3,4,5) by (rule own_label)
  ultimately show ?case by (simp add: t map_concat comp_def)
next
  case (5 cwd dirPath basePath item_name item rest subs)
  have v: "valid_name item_name" "valid_names item"
    "list_all (\<lambda>e. valid_name (fst e) \<and> valid_names (snd e)) rest"
    using "5.prems"(2) by simp_all
  show ?case
  proof (cases "isDirectory item")
    case False
    then have o: "item = Other" by (cases item) auto
    from "5.prems"(5) False
    have "hierarchy_items cwd dirPath basePath rest subs = Inr subs'" by simp
    from "5.IH"(3)[OF False "5.prems"(1) v(3) "5.prems"(3,4) this]
    show ?thesis by (simp add: o)
  next
    case True
    let ?q = "join [dirPath, item_name]"
    from "5.prems"(5) True obtain t where
      t: "getDirectoryHierarchy cwd ?q basePath item = Inr t"
      and r: "hierarchy_items cwd dirPath basePath rest (subs @ [t]) = Inr subs'"
      by (auto split: sum.splits)
    have q: "absolute_segments cwd ?q = absolute_segments cwd basePath @ (ns @ [item_name])"
      using absolute_segments_join[OF v(1), of cwd dirPath] "5.prems"(3) by simp
    have n: "map name (nodes t) = dir_labels (ns @ [item_name]) item"
      using "5.IH"(1)[OF True "5.prems"(1) v(2) q _ _ t] "5.prems"(4) v(1) by simp
    from "5.IH"(2)[OF True t "5.prems"(1) v(3) "5.prems"(3,4) r] obtain new where
      new: "subs' = (subs @ [t]) @ new"
        "concat (map (\<lambda>s. map name (nodes s)) new) = dir_labels_in ns rest"
      by blast
    have "subs' = subs @ (t # new)" using new(1) by simp
    moreover have "concat (map (\<lambda>s. map name (nodes s)) (t # new))
        = dir_labels_in ns ((item_name, item) # rest)"
      using n new(2) by simp
    ultimately show ?thesis by blast
  qed
qed simp_all

lemma hierarchy_relative:
  "getDirectoryHierarchy cwd dirPath basePath node = Inr t \<Longrightarrow>
   \<forall>n\<in>set (nodes t). name n = or_else (relative cwd basePath (path n)) (js ''.'')"
  "hierarchy_items cwd dirPath basePath items subs = Inr subs' \<Longrightarrow>
   \<forall>s\<in>set subs. \<forall>n\<in>set (nodes s). name n = or_else (relative cwd basePath (path n)) (js ''.'') \<Longrightarrow>
   \<forall>s\<in>set subs'. \<forall>n\<in>set (nodes s). name n = or_else (relative cwd basePath (path n)) (js ''.'')"
proof (induction cwd dirPath basePath node and cwd dirPath basePath items subs
    arbitrary: t and subs'
    rule: getDirectoryHierarchy_hierarchy_items.induct)
  case (1 cwd dirPath basePath entries)
  from "1.prems" obtain subs where
    s: "hierarchy_items cwd dirPath basePath entries [] = Inr subs"
    and t: "t = DirectoryInfo (or_else (relative cwd basePath dirPath) (js ''.'')) dirPath subs"
    by (auto split: sum.splits)
  from "1.IH"[OF s] show ?case by (auto simp: t)
next
  case (5 cwd dirPath basePath item_name item rest subs)
  show ?case
  proof (cases "isDirectory item")
    case False
    with "5.prems"(1) have "hierarchy_items cwd dirPath basePath rest subs = Inr subs'" by simp
    from "5.IH"(3)[OF False this "5.prems"(2)] show ?thesis .
  next
    case True
    let ?q = "join [dirPath, item_name]"
    from "5.prems"(1) True obtain t where
      t: "getDirectoryHierarchy cwd ?q basePath item = Inr t"
      and r: "hierarchy_items cwd dirPath basePath rest (subs @ [t]) = Inr subs'"
      by (auto split: sum.splits)
    from "5.IH"(1)[OF True t] "5.prems"(2)
    have "\<forall>s\<in>set (subs @ [t]). \<forall>n\<in>set (nodes s).
            name n = or_else (relative cwd basePath (path n)) (js ''.'')"
      by auto
    from "5.IH"(2)[OF True t r this] show ?thesis .
  qed
qed simp_all


lemma label_not_absolute:
  assumes "list_all valid_name ns"
  shows "\<not> isAbsolute (label_of ns)"
proof (cases "ns = []")
  case True
  then show ?thesis by (simp add: label_of_def isAbsolute_def js_def slash_def)
next
  case False
  have nsne: "\<forall>x\<in>set ns. x \<noteq> []"
    using assms by (auto simp: list_all_iff valid_name_def)
  have ne: "intercalate slash ns \<noteq> []"
    using False nsne by (rule intercalate_nonempty)
  have "hd (intercalate slash ns) = hd (hd ns)"
    using False nsne by (rule intercalate_hd)
  moreover have "hd (hd ns) \<noteq> slash"
  proof -
    have "hd ns \<in> set ns" using False by simp
    then have "kept (hd ns)" using assms by (auto simp: list_all_iff valid_name_def kept_def)
    then show ?thesis by (rule kept_hd)
  qed
  ultimately have "\<not> isAbsolute (intercalate slash ns)"
    using ne by (cases "intercalate slash ns") (simp_all add: isAbsolute_def)
  then show ?thesis using False by (simp add: label_of_def)
qed

lemma dir_labels_not_absolute:
  "valid_names node \<Longrightarrow> list_all valid_name ns \<Longrightarrow>
     \<forall>l\<in>set (dir_labels ns node). \<not> isAbsolute l"
  "list_all (\<lambda>e. valid_name (fst e) \<and> valid_names (snd e)) items \<Longrightarrow>
   list_all valid_name ns \<Longrightarrow>
     \<forall>l\<in>set (dir_labels_in ns items). \<not> isAbsolute l"
proof (induction ns node and ns items rule: dir_labels_dir_labels_in.induct)
  case (1 ns entries)
  then show ?case by (simp add: label_not_absolute)
next
  case (3 ns)
  then show ?case by (simp add: label_not_absolute)
next
  case (5 ns item_name item rest)
  then show ?case by auto
qed simp_all

subsection \<open>C7\<close>

text \<open>A repository with its \<open>.git\<close> directory, a file and nested sources.\<close>

definition demo_tree :: fsnode where
  "demo_tree =
     Directory [(js ''.git'', Directory [(js ''config'', Other), (js ''refs'', Directory [])]),
                (js ''README.md'', Other),
                (js ''src'', Directory [(js ''app'', Directory [])])]"

text \<open>
  C7: for a root directory whose tree can be listed throughout (the entries named as a
  listing names them, the working directory absolute), the build returns a hierarchy
  with one node for each directory reachable from the root, the root and the marker
  directory among them, and for nothing else; the root node is named \<open>.\<close>; every node
  is named by the path from the root to it, which is \<open>relative(root, path)\<close>, the
  names of the entries that lead to it joined by \<open>/\<close>, and never absolute; and that
  name, resolved against the root, is where the node's path resolves to, which is the
  path itself where the root is given resolved.
\<close>

theorem hierarchy_mirrors_directories:
  assumes "isDirectory node" "listable node" "valid_names node" "isAbsolute cwd"
  shows "\<exists>t. getDirectoryHierarchy cwd root root node = Inr t
     \<and> length (nodes t) = count_dirs node
     \<and> map path (nodes t) = dir_paths root node
     \<and> map name (nodes t) = dir_labels [] node
     \<and> name t = js ''.''
     \<and> (\<forall>n\<in>set (nodes t). name n = or_else (relative cwd root (path n)) (js ''.''))
     \<and> (\<forall>n\<in>set (nodes t). \<not> isAbsolute (name n))
     \<and> (\<forall>n\<in>set (nodes t). resolve cwd [root, name n] = resolve cwd [path n])
     \<and> (resolve cwd [root] = root
          \<longrightarrow> (\<forall>n\<in>set (nodes t). resolve cwd [root, name n] = path n))"
proof -
  from hierarchy_total(1)[OF assms(1,2), of cwd root root] obtain t where
    t: "getDirectoryHierarchy cwd root root node = Inr t"
    and p: "map path (nodes t) = dir_paths root node"
    by blast
  have len: "length (nodes t) = count_dirs node"
    using p length_dir_paths(1)[of root node] by (metis length_map)
  have nm: "name t = js ''.''"
    using t by (cases node) (auto simp: relative_def or_else_def split: sum.splits)
  have lbl: "map name (nodes t) = dir_labels [] node"
    using hierarchy_names(1)[OF assms(4,3) _ _ _ t, of "[]"] by simp
  have rel: "\<forall>n\<in>set (nodes t). name n = or_else (relative cwd root (path n)) (js ''.'')"
    using t by (rule hierarchy_relative(1))
  have nabs: "\<forall>n\<in>set (nodes t). \<not> isAbsolute (name n)"
  proof
    fix n assume "n \<in> set (nodes t)"
    then have "name n \<in> set (dir_labels [] node)"
      using lbl by (metis image_eqI set_map)
    then show "\<not> isAbsolute (name n)"
      using dir_labels_not_absolute(1)[OF assms(3), of "[]"] by simp
  qed
  have lab: "\<forall>n\<in>set (nodes t). resolve cwd [root, name n] = resolve cwd [path n]"
    using hierarchy_labels(1)[OF assms(4,3) _ _ _ t, of "[]"]
    by (simp add: labelled_def)
  have res: "\<forall>n\<in>set (nodes t). resolve cwd [root, name n] = path n"
    if r: "resolve cwd [root] = root"
  proof
    fix n assume n: "n \<in> set (nodes t)"
    then have "path n \<in> set (dir_paths root node)"
      using p by (metis image_eqI set_map)
    then have "resolve cwd [path n] = path n"
      using dir_paths_resolved(1)[OF assms(4,3) r] by blast
    with lab n show "resolve cwd [root, name n] = path n" by simp
  qed
  show ?thesis
    using t len p lbl nm rel nabs lab res by blast
qed

theorem hierarchy_mirrors_directories_witness:
  "isDirectory demo_tree \<and> listable demo_tree \<and> valid_names demo_tree
   \<and> isAbsolute (js ''/home/u'')
   \<and> getDirectoryHierarchy (js ''/home/u'') (js ''/w'') (js ''/w'') demo_tree
       = Inr (DirectoryInfo (js ''.'') (js ''/w'')
               [DirectoryInfo (js ''.git'') (js ''/w/.git'')
                  [DirectoryInfo (js ''.git/refs'') (js ''/w/.git/refs'') []],
                DirectoryInfo (js ''src'') (js ''/w/src'')
                  [DirectoryInfo (js ''src/app'') (js ''/w/src/app'') []]])
   \<and> count_dirs demo_tree = 5
   \<and> dir_labels [] demo_tree
       = [js ''.'', js ''.git'', js ''.git/refs'', js ''src'', js ''src/app'']
   \<and> resolve (js ''/home/u'') [js ''/w''] = js ''/w''
   \<and> (\<exists>t. getDirectoryHierarchy (js ''/home/u'') (js ''/w'') (js ''/w'') demo_tree = Inr t
     \<and> length (nodes t) = count_dirs demo_tree
     \<and> map path (nodes t) = dir_paths (js ''/w'') demo_tree
     \<and> map name (nodes t) = dir_labels [] demo_tree
     \<and> name t = js ''.''
     \<and> (\<forall>n\<in>set (nodes t).
           name n = or_else (relative (js ''/home/u'') (js ''/w'') (path n)) (js ''.''))
     \<and> (\<forall>n\<in>set (nodes t). \<not> isAbsolute (name n))
     \<and> (\<forall>n\<in>set (nodes t). resolve (js ''/home/u'') [js ''/w'', name n]
                               = resolve (js ''/home/u'') [path n])
     \<and> (resolve (js ''/home/u'') [js ''/w''] = js ''/w''
          \<longrightarrow> (\<forall>n\<in>set (nodes t).
                 resolve (js ''/home/u'') [js ''/w'', name n] = path n)))
   \<and> (\<exists>t. getDirectoryHierarchy (js ''/home/u'') (js ''/w'') (js ''/w'') demo_tree = Inr t
     \<and> (\<forall>n\<in>set (nodes t). resolve (js ''/home/u'') [js ''/w'', name n] = path n))"
proof -
  have a: "isDirectory demo_tree" "listable demo_tree"
    by (simp_all add: demo_tree_def)
  have b: "valid_names demo_tree"
    by (simp add: demo_tree_def valid_name_def js_def slash_def)
  have c: "isAbsolute (js ''/home/u'')"
    by (simp add: path_eval)
  have d: "getDirectoryHierarchy (js ''/home/u'') (js ''/w'') (js ''/w'') demo_tree
       = Inr (DirectoryInfo (js ''.'') (js ''/w'')
               [DirectoryInfo (js ''.git'') (js ''/w/.git'')
                  [DirectoryInfo (js ''.git/refs'') (js ''/w/.git/refs'') []],
                DirectoryInfo (js ''src'') (js ''/w/src'')
                  [DirectoryInfo (js ''src/app'') (js ''/w/src/app'') []]])"
    by (simp add: demo_tree_def path_eval resolve_def relative_def or_else_def Let_def)
  have e: "count_dirs demo_tree = 5"
    by (simp add: demo_tree_def)
  have l: "dir_labels [] demo_tree
       = [js ''.'', js ''.git'', js ''.git/refs'', js ''src'', js ''src/app'']"
    by (simp add: demo_tree_def label_of_def js_def slash_def)
  have f: "resolve (js ''/home/u'') [js ''/w''] = js ''/w''"
    by (simp add: path_eval resolve_def)
  have x: "\<exists>t. getDirectoryHierarchy (js ''/home/u'') (js ''/w'') (js ''/w'') demo_tree = Inr t
     \<and> length (nodes t) = count_dirs demo_tree
     \<and> map path (nodes t) = dir_paths (js ''/w'') demo_tree
     \<and> map name (nodes t) = dir_labels [] demo_tree
     \<and> name t = js ''.''
     \<and> (\<forall>n\<in>set (nodes t).
           name n = or_else (relative (js ''/home/u'') (js ''/w'') (path n)) (js ''.''))
     \<and> (\<forall>n\<in>set (nodes t). \<not> isAbsolute (name n))
     \<and> (\<forall>n\<in>set (nodes t). resolve (js ''/home/u'') [js ''/w'', name n]
                               = resolve (js ''/home/u'') [path n])
     \<and> (resolve (js ''/home/u'') [js ''/w''] = js ''/w''
          \<longrightarrow> (\<forall>n\<in>set (nodes t).
                 resolve (js ''/home/u'') [js ''/w'', name n] = path n))"
    using a b c by (rule hierarchy_mirrors_directories)
  from x obtain t where
    t: "getDirectoryHierarchy (js ''/home/u'') (js ''/w'') (js ''/w'') demo_tree = Inr t"
    and r: "resolve (js ''/home/u'') [js ''/w''] = js ''/w''
          \<longrightarrow> (\<forall>n\<in>set (nodes t).
                 resolve (js ''/home/u'') [js ''/w'', name n] = path n)"
    by (elim exE conjE)
  from r f have "\<forall>n\<in>set (nodes t). resolve (js ''/home/u'') [js ''/w'', name n] = path n"
    by (rule mp)
  with t have y: "\<exists>t. getDirectoryHierarchy (js ''/home/u'') (js ''/w'') (js ''/w'') demo_tree
        = Inr t
     \<and> (\<forall>n\<in>set (nodes t). resolve (js ''/home/u'') [js ''/w'', name n] = path n)"
    by (intro exI conjI)
  show ?thesis by (intro conjI a b c d e l f x y)
qed

end
